theory Spec2Isabelle
  imports Main "HOL-Library.Sublist"
begin

section \<open>JavaScript values as the program holds them\<close>

text \<open>
  \<^verbatim>\<open>type JsonValue = string | number | boolean | null | JsonValue[] | { [key: string]: JsonValue }\<close>

  Numbers are only carried around by the functions modelled here, never computed with, so
  the number type is a parameter. Strings are lists of characters, each standing for one
  code unit; the program only compares, splits and concatenates them.

  An ordinary object is the list of its own properties in the order in which the engine
  enumerates them (\<^verbatim>\<open>Object.keys\<close>, \<^verbatim>\<open>Object.entries\<close>): keys that are array indices
  first, by ascending numeric value, then all other keys in the order of their creation.
  An array is an object with a \<^verbatim>\<open>length\<close>: the constructor \<open>JArr\<close> holds the length and
  the own properties (elements under index keys, a hole being an absent key, and whatever
  other properties were stored on the array). \<open>JUndefined\<close> is what reading a hole yields.

  Values are trees: no array or object is reached along two paths. That is so for
  everything \<^verbatim>\<open>JSON.parse\<close> returns (line 347) and for the containers that the
  program creates itself, each from a literal of its own.
\<close>

datatype 'n json =
    JUndefined
  | JNull
  | JBool bool
  | JNum 'n
  | JStr string
  | JArr nat "(string \<times> 'n json) list"
  | JObj "(string \<times> 'n json) list"

type_synonym 'n props = "(string \<times> 'n json) list"

text \<open>
  What a call can end in besides a value: a thrown TypeError, or \<open>Unmodelled\<close>, which
  marks the places where the program reaches behaviour that this embedding leaves out
  (inherited properties of the built-in prototypes, numbers beyond the exact integers).
\<close>

datatype js_error =
    TypeError
  | Unmodelled

subsection \<open>Decimal strings\<close>

definition is_digit :: "char \<Rightarrow> bool" where
  "is_digit c = (c \<in> set ''0123456789'')"

text \<open>\<^verbatim>\<open>/^\d+$/.test(s)\<close>\<close>

definition is_numeric :: "string \<Rightarrow> bool" where
  "is_numeric s = (s \<noteq> [] \<and> list_all is_digit s)"

definition digit_val :: "char \<Rightarrow> nat" where
  "digit_val c = length (takeWhile (\<lambda>d. d \<noteq> c) ''0123456789'')"

definition digit_char :: "nat \<Rightarrow> char" where
  "digit_char n = ''0123456789'' ! n"

text \<open>\<^verbatim>\<open>parseInt(s)\<close> on a string of decimal digits, as an exact natural number.\<close>

definition parseInt :: "string \<Rightarrow> nat" where
  "parseInt s = foldl (\<lambda>acc c. 10 * acc + digit_val c) 0 s"

text \<open>The decimal rendering of a non-negative integer: \<^verbatim>\<open>`${i}`\<close>.\<close>

fun show_nat :: "nat \<Rightarrow> string" where
  "show_nat n = (if n < 10 then [digit_char n] else show_nat (n div 10) @ [digit_char (n mod 10)])"

declare show_nat.simps [simp del]

text \<open>
  A property key is an array index when it is the canonical decimal rendering of an
  integer below \<open>2^32 - 1\<close>.
\<close>

definition array_index :: "string \<Rightarrow> nat option" where
  "array_index k =
     (if is_numeric k \<and> (k = ''0'' \<or> hd k \<noteq> CHR ''0'') \<and> parseInt k < 4294967295
      then Some (parseInt k) else None)"

subsection \<open>Own properties\<close>

fun insert_index :: "nat \<Rightarrow> string \<Rightarrow> 'n json \<Rightarrow> 'n props \<Rightarrow> 'n props" where
  "insert_index i k v [] = [(k, v)]"
| "insert_index i k v ((k', v') # ps) =
     (case array_index k' of
        Some j \<Rightarrow> if j < i then (k', v') # insert_index i k v ps else (k, v) # (k', v') # ps
      | None \<Rightarrow> (k, v) # (k', v') # ps)"

fun replace_own :: "string \<Rightarrow> 'n json \<Rightarrow> 'n props \<Rightarrow> 'n props" where
  "replace_own k v [] = []"
| "replace_own k v ((k', v') # ps) =
     (if k' = k then (k, v) # ps else (k', v') # replace_own k v ps)"

text \<open>
  Storing a data property: an existing own property keeps its place and takes the new
  value; a new key is created where the enumeration order puts it.
\<close>

definition define_prop :: "'n props \<Rightarrow> string \<Rightarrow> 'n json \<Rightarrow> 'n props" where
  "define_prop ps k v =
     (if k \<in> fst ` set ps then replace_own k v ps
      else case array_index k of
             Some i \<Rightarrow> insert_index i k v ps
           | None \<Rightarrow> ps @ [(k, v)])"

section \<open>Path codec\<close>

text \<open>
  \<^verbatim>\<open>key.split(delimiter)\<close>: the pieces between the occurrences of the separator, found
  from left to right; with the empty separator, the code units of the string.
\<close>

function split_from :: "string \<Rightarrow> string \<Rightarrow> string \<Rightarrow> string list" where
  "split_from sep piece [] = [piece]"
| "split_from sep piece (c # cs) =
     (if sep \<noteq> [] \<and> prefix sep (c # cs)
      then piece # split_from sep [] (drop (length sep) (c # cs))
      else split_from sep (piece @ [c]) cs)"
  by pat_completeness auto
termination
  by (relation "measure (\<lambda>(sep, piece, s). length s)") auto

definition js_split :: "string \<Rightarrow> string \<Rightarrow> string list" where
  "js_split s sep = (if sep = [] then map (\<lambda>c. [c]) s else split_from sep [] s)"

text \<open>
  \<^verbatim>\<open>
  function splitKey(key: string, delimiter: string): string[] {
    if (delimiter === '.') {
      return key.split('.');
    }
    return key.split(delimiter);
  }
  \<close>
\<close>

definition splitKey :: "string \<Rightarrow> string \<Rightarrow> string list" where
  "splitKey key delimiter =
     (if delimiter = ''.'' then js_split key ''.'' else js_split key delimiter)"

text \<open>
  \<^verbatim>\<open>prefix ? `${prefix}${delimiter}${key}` : key\<close>: the empty string is the only
  falsy prefix.
\<close>

definition child_key :: "string \<Rightarrow> string \<Rightarrow> string \<Rightarrow> string" where
  "child_key pre delimiter key = (if pre \<noteq> [] then pre @ delimiter @ key else key)"

section \<open>Flatten\<close>

text \<open>
  \<^verbatim>\<open>result[prefix] = obj\<close> on the result record. The record starts as \<^verbatim>\<open>{}\<close> and is
  only ever written by such assignments, so its own properties are data properties and
  its prototype is \<^verbatim>\<open>Object.prototype\<close> until an assignment to \<^verbatim>\<open>__proto__\<close> changes
  it. Besides its own properties the record carries one more piece of state: whether an
  assignment to \<^verbatim>\<open>__proto__\<close> still reaches the accessor of \<^verbatim>\<open>Object.prototype\<close>.

  While it does, and the record has no own property of that name, the assignment calls
  the setter. The setter creates no own property: it ignores a value that is neither
  \<^verbatim>\<open>null\<close> nor an object, and makes \<^verbatim>\<open>null\<close> or an object the prototype of the
  record. Below the prototype \<^verbatim>\<open>null\<close> there is no accessor any more, and an object
  that has an own property \<^verbatim>\<open>__proto__\<close> (a map parsed from JSON text can have one)
  hides it: from then on the key \<^verbatim>\<open>__proto__\<close> is stored like any other. Every other
  key is a data property wherever the prototype chain has it, so assigning it creates or
  updates an own property of the record.
\<close>

datatype 'n record_object = RecordObject (own_props: "'n props") (setter_reached: bool)

abbreviation empty_record :: "'n record_object" where
  "empty_record \<equiv> RecordObject [] True"

fun new_prototype :: "'n json \<Rightarrow> bool option" where
  "new_prototype JNull = Some False"
| "new_prototype (JObj ps) = Some (''__proto__'' \<notin> fst ` set ps)"
| "new_prototype (JArr len ps) = Some (''__proto__'' \<notin> fst ` set ps)"
| "new_prototype v = None"

definition record_set :: "'n record_object \<Rightarrow> string \<Rightarrow> 'n json \<Rightarrow> 'n record_object" where
  "record_set result k v =
     (if k = ''__proto__'' \<and> k \<notin> fst ` set (own_props result) \<and> setter_reached result
      then (case new_prototype v of
              None \<Rightarrow> result
            | Some reached \<Rightarrow> RecordObject (own_props result) reached)
      else RecordObject (define_prop (own_props result) k v) (setter_reached result))"

text \<open>\<^verbatim>\<open>obj[i]\<close> on an array: the element, or \<^verbatim>\<open>undefined\<close> at a hole.\<close>

definition array_get :: "'n props \<Rightarrow> nat \<Rightarrow> 'n json" where
  "array_get ps i = (case map_of ps (show_nat i) of Some v \<Rightarrow> v | None \<Rightarrow> JUndefined)"

fun is_container :: "'n json \<Rightarrow> bool" where
  "is_container (JArr len ps) = True"
| "is_container (JObj ps) = True"
| "is_container v = False"

definition weight :: "'n json \<Rightarrow> nat" where
  "weight v = size v + (if is_container v then 1 else 0)"

lemma weight_member:
  "(k, v) \<in> set ps \<Longrightarrow> weight v \<le> Suc (size_list (size_prod (\<lambda>_. 0) size) ps)"
  by (induction ps) (auto simp: weight_def)

lemma weight_array_get:
  "weight (array_get ps i) \<le> Suc (size_list (size_prod (\<lambda>_. 0) size) ps)"
  by (auto simp: array_get_def weight_def dest!: map_of_SomeD weight_member split: option.splits)

text \<open>
  \<^verbatim>\<open>
  function flatten(obj, delimiter = '.', prefix = '', result = {}) {
    if (obj === null || typeof obj !== 'object') { result[prefix] = obj; return result; }
    if (Array.isArray(obj)) {
      if (obj.length === 0) { result[prefix] = []; return result; }
      for (let i = 0; i < obj.length; i++) {
        const key = prefix ? `${prefix}${delimiter}${i}` : `${i}`;
        flatten(obj[i], delimiter, key, result);
      }
      return result;
    }
    const keys = Object.keys(obj);
    if (keys.length === 0) { result[prefix] = {}; return result; }
    for (const key of keys) {
      const newPrefix = prefix ? `${prefix}${delimiter}${key}` : key;
      flatten(obj[key], delimiter, newPrefix, result);
    }
    return result;
  }
  \<close>
  The keys of an object are unique, so \<^verbatim>\<open>obj[key]\<close> is the value listed with \<open>key\<close>.
\<close>

function flatten ::
  "'n json \<Rightarrow> string \<Rightarrow> string \<Rightarrow> 'n record_object \<Rightarrow> 'n record_object" where
  "flatten JUndefined delimiter pre result = record_set result pre JUndefined"
| "flatten JNull delimiter pre result = record_set result pre JNull"
| "flatten (JBool b) delimiter pre result = record_set result pre (JBool b)"
| "flatten (JNum n) delimiter pre result = record_set result pre (JNum n)"
| "flatten (JStr s) delimiter pre result = record_set result pre (JStr s)"
| "flatten (JArr len ps) delimiter pre result =
     (if len = 0 then record_set result pre (JArr 0 [])
      else fold (\<lambda>i res. flatten (array_get ps i) delimiter
                            (child_key pre delimiter (show_nat i)) res)
             [0..<len] result)"
| "flatten (JObj ps) delimiter pre result =
     (if ps = [] then record_set result pre (JObj [])
      else fold (\<lambda>(key, v) res. flatten v delimiter (child_key pre delimiter key) res)
             ps result)"
  by pat_completeness auto
termination
proof (relation "measure (\<lambda>(obj, delimiter, pre, result). weight obj)", goal_cases)
  case 1
  show ?case by simp
next
  case (2 len ps delimiter pre result i res)
  show ?case using weight_array_get [of ps i] by (simp add: weight_def)
next
  case 3
  then show ?case by (auto simp: weight_def dest!: weight_member)
qed

section \<open>Unflatten\<close>

text \<open>
  The file is a module (it has imports), so its code is strict: assigning a property on
  a primitive throws a TypeError, as reading a property of \<^verbatim>\<open>null\<close> does.

  \<^verbatim>\<open>current[key]\<close> looks a key up in the own properties first and then along the
  prototype chain. The built-in prototypes are not part of this embedding: where the
  program would read one of their members, or write \<^verbatim>\<open>__proto__\<close> or an array's
  \<^verbatim>\<open>length\<close>, the model stops with \<open>Unmodelled\<close>. The lists below name the members
  of \<^verbatim>\<open>Object.prototype\<close>, of \<^verbatim>\<open>Array.prototype\<close> and of the prototypes of the
  primitive wrappers.
\<close>

definition object_inherited :: "string list" where
  "object_inherited =
     [''constructor'', ''__defineGetter__'', ''__defineSetter__'', ''hasOwnProperty'',
      ''__lookupGetter__'', ''__lookupSetter__'', ''isPrototypeOf'', ''propertyIsEnumerable'',
      ''toString'', ''valueOf'', ''__proto__'', ''toLocaleString'']"

definition array_inherited :: "string list" where
  "array_inherited =
     [''length'', ''at'', ''concat'', ''copyWithin'', ''entries'', ''every'', ''fill'', ''filter'',
      ''find'', ''findIndex'', ''findLast'', ''findLastIndex'', ''flat'', ''flatMap'', ''forEach'',
      ''includes'', ''indexOf'', ''join'', ''keys'', ''lastIndexOf'', ''map'', ''pop'', ''push'',
      ''reduce'', ''reduceRight'', ''reverse'', ''shift'', ''slice'', ''some'', ''sort'', ''splice'',
      ''toReversed'', ''toSorted'', ''toSpliced'', ''unshift'', ''values'', ''with'', ''group'',
      ''groupToMap''] @ object_inherited"

definition wrapper_inherited :: "string list" where
  "wrapper_inherited =
     [''length'', ''anchor'', ''at'', ''big'', ''blink'', ''bold'', ''charAt'', ''charCodeAt'',
      ''codePointAt'', ''concat'', ''endsWith'', ''fixed'', ''fontcolor'', ''fontsize'',
      ''includes'', ''indexOf'', ''isWellFormed'', ''italics'', ''lastIndexOf'', ''link'',
      ''localeCompare'', ''match'', ''matchAll'', ''normalize'', ''padEnd'', ''padStart'',
      ''repeat'', ''replace'', ''replaceAll'', ''search'', ''slice'', ''small'', ''split'',
      ''strike'', ''sub'', ''substr'', ''substring'', ''sup'', ''startsWith'', ''toWellFormed'',
      ''trim'', ''trimStart'', ''trimLeft'', ''trimEnd'', ''trimRight'', ''toLocaleLowerCase'',
      ''toLocaleUpperCase'', ''toLowerCase'', ''toUpperCase'', ''toExponential'', ''toFixed'',
      ''toPrecision''] @ object_inherited"

text \<open>Reading \<^verbatim>\<open>current[key]\<close>.\<close>

fun js_get :: "'n json \<Rightarrow> string \<Rightarrow> js_error + 'n json" where
  "js_get (JObj ps) k =
     (case map_of ps k of
        Some v \<Rightarrow> Inr v
      | None \<Rightarrow> if k \<in> set object_inherited then Inl Unmodelled else Inr JUndefined)"
| "js_get (JArr len ps) k =
     (case map_of ps k of
        Some v \<Rightarrow> Inr v
      | None \<Rightarrow> if k \<in> set array_inherited then Inl Unmodelled else Inr JUndefined)"
| "js_get (JStr s) k =
     (case array_index k of
        Some i \<Rightarrow> Inr (if i < length s then JStr [s ! i] else JUndefined)
      | None \<Rightarrow> if k \<in> set wrapper_inherited then Inl Unmodelled else Inr JUndefined)"
| "js_get (JNum n) k = (if k \<in> set wrapper_inherited then Inl Unmodelled else Inr JUndefined)"
| "js_get (JBool b) k = (if k \<in> set wrapper_inherited then Inl Unmodelled else Inr JUndefined)"
| "js_get JNull k = Inl TypeError"
| "js_get JUndefined k = Inl TypeError"

text \<open>
  The assignment \<^verbatim>\<open>current[key] = value\<close>; the result is \<open>current\<close> after it. An index
  key stored on an array extends its length.
\<close>

fun js_set :: "'n json \<Rightarrow> string \<Rightarrow> 'n json \<Rightarrow> js_error + 'n json" where
  "js_set (JObj ps) k v =
     (if k = ''__proto__'' \<and> k \<notin> fst ` set ps then Inl Unmodelled
      else Inr (JObj (define_prop ps k v)))"
| "js_set (JArr len ps) k v =
     (case array_index k of
        Some i \<Rightarrow> Inr (JArr (max len (Suc i)) (define_prop ps k v))
      | None \<Rightarrow>
          if k = ''length'' \<or> (k = ''__proto__'' \<and> k \<notin> fst ` set ps) then Inl Unmodelled
          else Inr (JArr len (define_prop ps k v)))"
| "js_set (JStr s) k v = (if k = ''__proto__'' then Inl Unmodelled else Inl TypeError)"
| "js_set (JNum n) k v = (if k = ''__proto__'' then Inl Unmodelled else Inl TypeError)"
| "js_set (JBool b) k v = (if k = ''__proto__'' then Inl Unmodelled else Inl TypeError)"
| "js_set JNull k v = Inl TypeError"
| "js_set JUndefined k v = Inl TypeError"

text \<open>
  The container reached by \<^verbatim>\<open>current = current[key]\<close> is changed in place by the
  rest of the walk; its parent keeps the key where it is.
\<close>

fun put_child :: "'n json \<Rightarrow> string \<Rightarrow> 'n json \<Rightarrow> 'n json" where
  "put_child (JObj ps) k c = JObj (replace_own k c ps)"
| "put_child (JArr len ps) k c = JArr len (replace_own k c ps)"
| "put_child v k c = v"

text \<open>
  One entry of the flat mapping (lines 68 to 84):
  \<^verbatim>\<open>
    let current = result;
    for (let i = 0; i < keys.length - 1; i++) {
      const key = keys[i];
      const nextKey = keys[i + 1];
      const isNextNumeric = /^\d+$/.test(nextKey);
      if (current[key] === undefined) {
        current[key] = isNextNumeric ? [] : {};
      }
      current = current[key];
    }
    const lastKey = keys[keys.length - 1];
    current[lastKey] = value;
  \<close>
  With no keys at all (the empty path split on the empty delimiter) \<^verbatim>\<open>lastKey\<close> is
  \<^verbatim>\<open>undefined\<close>, which as a property key is the string \<^verbatim>\<open>"undefined"\<close>.
\<close>

fun assign_path :: "'n json \<Rightarrow> string list \<Rightarrow> 'n json \<Rightarrow> js_error + 'n json" where
  "assign_path current [] v = js_set current ''undefined'' v"
| "assign_path current [lastKey] v = js_set current lastKey v"
| "assign_path current (key # nextKey # keys) v =
     (case js_get current key of
        Inl e \<Rightarrow> Inl e
      | Inr c \<Rightarrow>
          if c = JUndefined then
            (let fresh = (if is_numeric nextKey then JArr 0 [] else JObj [])
             in case js_set current key fresh of
                  Inl e \<Rightarrow> Inl e
                | Inr current' \<Rightarrow>
                    (case assign_path fresh (nextKey # keys) v of
                       Inl e \<Rightarrow> Inl e
                     | Inr c' \<Rightarrow> Inr (put_child current' key c')))
          else
            (case assign_path c (nextKey # keys) v of
               Inl e \<Rightarrow> Inl e
             | Inr c' \<Rightarrow> Inr (put_child current key c')))"

text \<open>\<^verbatim>\<open>for (const [flatKey, value] of Object.entries(obj)) { ... }\<close>\<close>

fun place_entries :: "'n json \<Rightarrow> 'n props \<Rightarrow> string \<Rightarrow> js_error + 'n json" where
  "place_entries result [] delimiter = Inr result"
| "place_entries result ((flatKey, v) # entries) delimiter =
     (case assign_path result (splitKey flatKey delimiter) v of
        Inl e \<Rightarrow> Inl e
      | Inr result' \<Rightarrow> place_entries result' entries delimiter)"

text \<open>
  \<^verbatim>\<open>arr[parseInt(k)] = x\<close>: the number is turned back into a property key. Up to
  \<open>2^53\<close> the number is exact and its key is its decimal rendering; beyond, the value
  is rounded to a double, which is not modelled.
\<close>

definition array_put :: "'n json \<Rightarrow> nat \<Rightarrow> 'n json \<Rightarrow> js_error + 'n json" where
  "array_put arr n x = (if n \<le> 9007199254740992 then js_set arr (show_nat n) x else Inl Unmodelled)"

text \<open>
  \<^verbatim>\<open>
  function maybeConvertToArray(obj: any): any {
    if (typeof obj !== 'object' || obj === null || Array.isArray(obj)) return obj;
    const keys = Object.keys(obj);
    const allNumeric = keys.length > 0 && keys.every(k => /^\d+$/.test(k));
    if (allNumeric) {
      const arr: any[] = [];
      for (const k of keys) { arr[parseInt(k)] = maybeConvertToArray(obj[k]); }
      return arr;
    }
    for (const k of keys) { obj[k] = maybeConvertToArray(obj[k]); }
    return obj;
  }
  \<close>
  \<open>fill_array\<close> is the first loop and \<open>convert_values\<close> the second.
\<close>

function maybeConvertToArray :: "'n json \<Rightarrow> js_error + 'n json"
  and fill_array :: "'n json \<Rightarrow> 'n props \<Rightarrow> js_error + 'n json"
  and convert_values :: "'n props \<Rightarrow> js_error + 'n props"
where
  "maybeConvertToArray JUndefined = Inr JUndefined"
| "maybeConvertToArray JNull = Inr JNull"
| "maybeConvertToArray (JBool b) = Inr (JBool b)"
| "maybeConvertToArray (JNum n) = Inr (JNum n)"
| "maybeConvertToArray (JStr s) = Inr (JStr s)"
| "maybeConvertToArray (JArr len ps) = Inr (JArr len ps)"
| "maybeConvertToArray (JObj ps) =
     (if ps \<noteq> [] \<and> list_all is_numeric (map fst ps) then fill_array (JArr 0 []) ps
      else case convert_values ps of
             Inl e \<Rightarrow> Inl e
           | Inr qs \<Rightarrow> Inr (JObj qs))"
| "fill_array arr [] = Inr arr"
| "fill_array arr ((k, v) # ps) =
     (case maybeConvertToArray v of
        Inl e \<Rightarrow> Inl e
      | Inr x \<Rightarrow>
          (case array_put arr (parseInt k) x of
             Inl e \<Rightarrow> Inl e
           | Inr arr' \<Rightarrow> fill_array arr' ps))"
| "convert_values [] = Inr []"
| "convert_values ((k, v) # ps) =
     (case maybeConvertToArray v of
        Inl e \<Rightarrow> Inl e
      | Inr x \<Rightarrow>
          (case convert_values ps of
             Inl e \<Rightarrow> Inl e
           | Inr qs \<Rightarrow> Inr ((k, x) # qs)))"
  by pat_completeness auto
termination
  by (relation "measure (\<lambda>x. case x of
          Inl v \<Rightarrow> size v
        | Inr (Inl (arr, ps)) \<Rightarrow> size_list (size_prod (\<lambda>_. 0) size) ps
        | Inr (Inr ps) \<Rightarrow> size_list (size_prod (\<lambda>_. 0) size) ps)") auto

text \<open>
  \<^verbatim>\<open>
  function unflatten(obj: Record<string, JsonValue>, delimiter: string = '.'): JsonValue {
    const result: any = {};
    for (const [flatKey, value] of Object.entries(obj)) { ... }
    return maybeConvertToArray(result);
  }
  \<close>
\<close>

definition unflatten :: "'n props \<Rightarrow> string \<Rightarrow> js_error + 'n json" where
  "unflatten obj delimiter =
     (case place_entries (JObj []) obj delimiter of
        Inl e \<Rightarrow> Inl e
      | Inr result \<Rightarrow> maybeConvertToArray result)"

section \<open>Filtering\<close>

text \<open>
  \<^verbatim>\<open>
  const regex = new RegExp(
    '^' +
    pattern
      .replace(/[.+?^${}()|[\]\\]/g, '\\$&')
      .replace(/\*/g, '[^.]*')
      .replace(/\*\*/g, '.*')
    + '$'
  );
  \<close>
  The three replacements are modelled as they are written, on strings; the regular
  expression is then read back from its source text.
\<close>

definition backslash :: char where
  "backslash = CHR 0x5C"

definition escaped_chars :: "char list" where
  "escaped_chars = ''.+?^${}()|[]'' @ [backslash]"

definition escape_special :: "string \<Rightarrow> string" where
  "escape_special s = concat (map (\<lambda>c. if c \<in> set escaped_chars then [backslash, c] else [c]) s)"

definition replace_star :: "string \<Rightarrow> string" where
  "replace_star s = concat (map (\<lambda>c. if c = CHR ''*'' then ''[^.]*'' else [c]) s)"

fun replace_double_star :: "string \<Rightarrow> string" where
  "replace_double_star (a # b # cs) =
     (if a = CHR ''*'' \<and> b = CHR ''*'' then ''.*'' @ replace_double_star cs
      else a # replace_double_star (b # cs))"
| "replace_double_star cs = cs"

definition regex_source :: "string \<Rightarrow> string" where
  "regex_source pattern =
     ''^'' @ replace_double_star (replace_star (escape_special pattern)) @ ''$''"

text \<open>
  The regular expressions that such a source text can denote: a sequence of single
  characters (a literal, \<^verbatim>\<open>.\<close> or the class \<^verbatim>\<open>[^.]\<close>), each optionally under
  \<^verbatim>\<open>*\<close>, between the anchors \<^verbatim>\<open>^\<close> and \<^verbatim>\<open>$\<close>. Any other syntax is outside the
  model (\<open>None\<close>).
\<close>

datatype re_atom = Lit char | AnyChar | NotDot

datatype re_item = One re_atom | Star re_atom

fun parse_atom :: "string \<Rightarrow> (re_atom \<times> string) option" where
  "parse_atom [] = None"
| "parse_atom (c # cs) =
     (if c = backslash then
        (case cs of
           [] \<Rightarrow> None
         | d # ds \<Rightarrow> if d \<in> set escaped_chars \<or> d = CHR ''*'' then Some (Lit d, ds) else None)
      else if c = CHR ''['' then
        (if take 3 cs = ''^.]'' then Some (NotDot, drop 3 cs) else None)
      else if c = CHR ''.'' then Some (AnyChar, cs)
      else if c \<in> set escaped_chars \<or> c = CHR ''*'' then None
      else Some (Lit c, cs))"

lemma parse_atom_shorter: "parse_atom s = Some (a, rest) \<Longrightarrow> length rest < length s"
  by (cases s) (auto split: if_splits list.splits)

function parse_items :: "string \<Rightarrow> re_item list option" where
  "parse_items s =
     (if s = ''$'' then Some []
      else case parse_atom s of
             None \<Rightarrow> None
           | Some (a, rest) \<Rightarrow>
               (case rest of
                  [] \<Rightarrow> map_option (Cons (One a)) (parse_items rest)
                | c # rest' \<Rightarrow>
                    if c = CHR ''*'' then map_option (Cons (Star a)) (parse_items rest')
                    else map_option (Cons (One a)) (parse_items rest)))"
  by pat_completeness auto
termination
  by (relation "measure length") (auto dest: parse_atom_shorter)

declare parse_items.simps [simp del]

definition parse_regex :: "string \<Rightarrow> re_item list option" where
  "parse_regex src = (case src of [] \<Rightarrow> None | c # body \<Rightarrow> if c = CHR ''^'' then parse_items body else None)"

text \<open>\<^verbatim>\<open>.\<close> matches every character but a line terminator; \<^verbatim>\<open>[^.]\<close> every character but the dot.\<close>

fun atom_match :: "re_atom \<Rightarrow> char \<Rightarrow> bool" where
  "atom_match (Lit d) c = (c = d)"
| "atom_match AnyChar c = (c \<noteq> CHR 0x0A \<and> c \<noteq> CHR 0x0D)"
| "atom_match NotDot c = (c \<noteq> CHR ''.'')"

text \<open>Whether the whole string is matched (the expression is anchored at both ends).\<close>

fun re_match :: "re_item list \<Rightarrow> string \<Rightarrow> bool" where
  "re_match [] s = (s = [])"
| "re_match (One a # r) [] = False"
| "re_match (One a # r) (c # cs) = (atom_match a c \<and> re_match r cs)"
| "re_match (Star a # r) [] = re_match r []"
| "re_match (Star a # r) (c # cs) = (re_match r (c # cs) \<or> (atom_match a c \<and> re_match (Star a # r) cs))"

text \<open>\<^verbatim>\<open>regex.test(key)\<close> for the expression compiled from \<open>pattern\<close>.\<close>

definition path_test :: "string \<Rightarrow> string \<Rightarrow> bool option" where
  "path_test pattern key = map_option (\<lambda>r. re_match r key) (parse_regex (regex_source pattern))"

text \<open>
  \<^verbatim>\<open>
  for (const [key, value] of Object.entries(flat)) {
    if (regex.test(key)) { result[key] = value; }
  }
  return result;
  \<close>
\<close>

definition filterByPath :: "'n props \<Rightarrow> string \<Rightarrow> js_error + 'n record_object" where
  "filterByPath flat pattern =
     (case parse_regex (regex_source pattern) of
        None \<Rightarrow> Inl Unmodelled
      | Some r \<Rightarrow>
          Inr (fold (\<lambda>(key, v) result. if re_match r key then record_set result key v else result)
                 flat empty_record))"

section \<open>Reference semantics\<close>

text \<open>
  What a glob pattern means, stated on the pattern itself: every character stands for
  itself, except \<^verbatim>\<open>*\<close>, which stands for a possibly empty run of characters other
  than the dot; the pattern has to account for the whole path.
\<close>

primrec glob_match :: "string \<Rightarrow> string \<Rightarrow> bool" where
  "glob_match [] = (\<lambda>s. s = [])"
| "glob_match (p # ps) = (\<lambda>s.
     if p = CHR ''*''
     then (\<exists>n \<in> {0..length s}. CHR ''.'' \<notin> set (take n s) \<and> glob_match ps (drop n s))
     else (case s of [] \<Rightarrow> False | c # cs \<Rightarrow> c = p \<and> glob_match ps cs))"

text \<open>What the first two replacements make of one pattern character, and the item it denotes.\<close>

definition compile_char :: "char \<Rightarrow> string" where
  "compile_char c =
     (if c = CHR ''*'' then ''[^.]*'' else if c \<in> set escaped_chars then [backslash, c] else [c])"

definition item_of :: "char \<Rightarrow> re_item" where
  "item_of c = (if c = CHR ''*'' then Star NotDot else One (Lit c))"

text \<open>Encoding a path: the steps joined with the delimiter, the root being the empty string.\<close>

fun join_steps :: "string list \<Rightarrow> string \<Rightarrow> string" where
  "join_steps [] d = []"
| "join_steps [s] d = s"
| "join_steps (s # t # ss) d = s @ d @ join_steps (t # ss) d"

text \<open>Where a value sits in a tree: following own properties only, step by step.\<close>

fun own_value :: "'n json \<Rightarrow> string \<Rightarrow> 'n json" where
  "own_value (JObj ps) k = (case map_of ps k of Some v \<Rightarrow> v | None \<Rightarrow> JUndefined)"
| "own_value (JArr len ps) k = (case map_of ps k of Some v \<Rightarrow> v | None \<Rightarrow> JUndefined)"
| "own_value v k = JUndefined"


datatype shape = Sequence | Mapping | NoContainer

fun shape_of :: "'n json \<Rightarrow> shape" where
  "shape_of (JArr len ps) = Sequence"
| "shape_of (JObj ps) = Mapping"
| "shape_of v = NoContainer"

text \<open>
  The leaf values of a flat mapping: null, a boolean, a number, a string, or one of the
  two markers, the empty sequence and the empty map.
\<close>

fun leaf_value :: "'n json \<Rightarrow> bool" where
  "leaf_value JUndefined = False"
| "leaf_value (JArr len ps) = (len = 0 \<and> ps = [])"
| "leaf_value (JObj ps) = (ps = [])"
| "leaf_value v = True"


text \<open>\<^verbatim>\<open>Object.keys\<close> of a value.\<close>

fun own_keys :: "'n json \<Rightarrow> string list" where
  "own_keys (JObj ps) = map fst ps"
| "own_keys (JArr len ps) = map fst ps"
| "own_keys v = []"

text \<open>
  The depth-first pre-order traversal of a value, as a list: a scalar or an empty
  container is one leaf at the current path; the elements of a non-empty sequence are
  visited by increasing index and the members of a non-empty map in the order of its
  keys, each under the path extended by its step.
\<close>

function preorder :: "'n json \<Rightarrow> string \<Rightarrow> string \<Rightarrow> 'n props" where
  "preorder JUndefined delimiter pre = [(pre, JUndefined)]"
| "preorder JNull delimiter pre = [(pre, JNull)]"
| "preorder (JBool b) delimiter pre = [(pre, JBool b)]"
| "preorder (JNum n) delimiter pre = [(pre, JNum n)]"
| "preorder (JStr s) delimiter pre = [(pre, JStr s)]"
| "preorder (JArr len ps) delimiter pre =
     (if len = 0 then [(pre, JArr 0 [])]
      else concat (map (\<lambda>i. preorder (array_get ps i) delimiter
                                (child_key pre delimiter (show_nat i)))
                     [0..<len]))"
| "preorder (JObj ps) delimiter pre =
     (if ps = [] then [(pre, JObj [])]
      else concat (map (\<lambda>(key, v). preorder v delimiter (child_key pre delimiter key)) ps))"
  by pat_completeness auto
termination
proof (relation "measure (\<lambda>(obj, delimiter, pre). weight obj)", goal_cases)
  case 1
  show ?case by simp
next
  case (2 len ps delimiter pre i)
  show ?case using weight_array_get [of ps i] by (simp add: weight_def)
next
  case 3
  then show ?case by (auto simp: weight_def dest!: weight_member)
qed

text \<open>
  \<^verbatim>\<open>JSON.parse\<close> (line 347) creates the members of an object in the order of the
  text; the object then enumerates them in its own order.
\<close>

definition object_of_members :: "'n props \<Rightarrow> 'n json" where
  "object_of_members members = JObj (fold (\<lambda>(k, v) ps. define_prop ps k v) members [])"

text \<open>One entry stored into the result record.\<close>

definition store :: "string \<times> 'n json \<Rightarrow> 'n record_object \<Rightarrow> 'n record_object" where
  "store e result = record_set result (fst e) (snd e)"

text \<open>
  The trees and delimiters for which the round trip is stated. A delimiter is usable when
  it is not empty and holds no decimal digit. A map key is usable when it is not an
  all-digit string, not the name of a member of \<^verbatim>\<open>Object.prototype\<close>, and shares no
  character with the delimiter. A tree is built from scalars, sequences without holes
  or other properties (shorter than \<open>2^32 - 1\<close>) and maps with distinct, usable keys.
\<close>

definition delimiter_ok :: "string \<Rightarrow> bool" where
  "delimiter_ok d = (d \<noteq> [] \<and> (\<forall>c \<in> set d. \<not> is_digit c))"

definition key_ok :: "string \<Rightarrow> string \<Rightarrow> bool" where
  "key_ok d k = (\<not> is_numeric k \<and> k \<notin> set object_inherited \<and> set k \<inter> set d = {})"

fun tree_ok :: "string \<Rightarrow> 'n json \<Rightarrow> bool" where
  "tree_ok d JUndefined = False"
| "tree_ok d JNull = True"
| "tree_ok d (JBool b) = True"
| "tree_ok d (JNum n) = True"
| "tree_ok d (JStr s) = True"
| "tree_ok d (JArr len ps) =
     (len < 4294967295 \<and> map fst ps = map show_nat [0..<len] \<and> (\<forall>p \<in> set ps. tree_ok d (snd p)))"
| "tree_ok d (JObj ps) =
     (distinct (map fst ps) \<and> (\<forall>p \<in> set ps. key_ok d (fst p) \<and> tree_ok d (snd p)))"

text \<open>
  The leaves of a value in pre-order, each with the list of steps that leads to it, and
  the path that flatten makes of a list of steps below a prefix.
\<close>

definition under :: "string \<Rightarrow> (string list \<times> 'n json) list \<Rightarrow> (string list \<times> 'n json) list" where
  "under k es = map (\<lambda>(ss, x). (k # ss, x)) es"

function leaf_steps :: "'n json \<Rightarrow> (string list \<times> 'n json) list" where
  "leaf_steps JUndefined = [([], JUndefined)]"
| "leaf_steps JNull = [([], JNull)]"
| "leaf_steps (JBool b) = [([], JBool b)]"
| "leaf_steps (JNum n) = [([], JNum n)]"
| "leaf_steps (JStr s) = [([], JStr s)]"
| "leaf_steps (JArr len ps) =
     (if len = 0 then [([], JArr 0 [])]
      else concat (map (\<lambda>i. under (show_nat i) (leaf_steps (array_get ps i))) [0..<len]))"
| "leaf_steps (JObj ps) =
     (if ps = [] then [([], JObj [])]
      else concat (map (\<lambda>(key, v). under key (leaf_steps v)) ps))"
  by pat_completeness auto
termination
proof (relation "measure weight", goal_cases)
  case 1
  show ?case by simp
next
  case (2 len ps i)
  show ?case using weight_array_get [of ps i] by (simp add: weight_def)
next
  case 3
  then show ?case by (auto simp: weight_def dest!: weight_member)
qed

definition path_of :: "string \<Rightarrow> string \<Rightarrow> string list \<Rightarrow> string" where
  "path_of d pre ss = foldl (\<lambda>p k. child_key p d k) pre ss"

text \<open>Placing entries whose paths are already split into steps.\<close>

fun place_steps :: "'n json \<Rightarrow> (string list \<times> 'n json) list \<Rightarrow> js_error + 'n json" where
  "place_steps cur [] = Inr cur"
| "place_steps cur ((ss, x) # es) =
     (case assign_path cur ss x of Inl e \<Rightarrow> Inl e | Inr cur' \<Rightarrow> place_steps cur' es)"

text \<open>
  Entries of a record whose key is an array index, the index of such a key, and
  entries of a traversal that lie one step below the root.
\<close>

definition index_key :: "string \<times> 'n json \<Rightarrow> bool" where
  "index_key p = (array_index (fst p) \<noteq> None)"

definition key_index :: "string \<times> 'n json \<Rightarrow> nat" where
  "key_index p = (case array_index (fst p) of Some i \<Rightarrow> i | None \<Rightarrow> 0)"

definition single_step :: "string list \<times> 'n json \<Rightarrow> bool" where
  "single_step e = (tl (fst e) = [])"

section \<open>Evaluation on concrete inputs\<close>

lemmas eval_defs =
  record_set_def define_prop_def array_index_def is_numeric_def is_digit_def parseInt_def
  digit_val_def digit_char_def child_key_def array_get_def show_nat.simps splitKey_def
  js_split_def unflatten_def array_put_def object_inherited_def array_inherited_def
  wrapper_inherited_def upt_rec

lemmas eval_filter_defs =
  path_test_def regex_source_def escape_special_def escaped_chars_def backslash_def
  replace_star_def parse_regex_def parse_items.simps

text \<open>
  The result record and its prototype: \<^verbatim>\<open>{"__proto__": 5}\<close> flattens to a record
  without entries, the setter ignoring the number; after the leaf \<^verbatim>\<open>null\<close> at the path
  \<^verbatim>\<open>__proto__\<close> has made the prototype \<^verbatim>\<open>null\<close>, a later leaf at that path is stored.
\<close>

lemma flatten_proto_paths:
  "flatten (JObj [(''__proto__'', JNum (5::int))]) ''.'' '''' empty_record = RecordObject [] True
   \<and> flatten (JObj [(''__proto__'', JNull), ('''', JObj [(''__proto__'', JNum (5::int))])])
        ''.'' '''' empty_record
     = RecordObject [(''__proto__'', JNum 5)] False"
  by (simp add: eval_defs)

section \<open>Empty containers\<close>

text \<open>
  C7. Empty container preservation: flattening \<^verbatim>\<open>{"a": [], "b": {}}\<close> with the
  delimiter \<^verbatim>\<open>.\<close> yields exactly the two entries \<^verbatim>\<open>a\<close> (an empty sequence) and
  \<^verbatim>\<open>b\<close> (an empty map), and unflattening that mapping yields the tree back: the empty
  sequence is still a sequence and the empty map still a map.
\<close>

theorem empty_containers_preserved:
  "flatten (JObj [(''a'', JArr 0 []), (''b'', JObj [])]) ''.'' '''' empty_record
     = RecordObject [(''a'', JArr 0 []), (''b'', JObj [])] True
   \<and> unflatten [(''a'', JArr 0 []), (''b'', JObj [])] ''.''
     = Inr (JObj [(''a'', JArr 0 []), (''b'', JObj [])])"
  by (simp add: eval_defs)

section \<open>The compiled path matcher\<close>

lemma replace_star_escape: "replace_star (escape_special p) = concat (map compile_char p)"
  by (induction p) (auto simp: replace_star_def escape_special_def compile_char_def escaped_chars_def backslash_def)

lemma compile_char_no_star: "compile_char c @ t = x # xs \<Longrightarrow> x \<noteq> CHR ''*''"
  by (auto simp: compile_char_def escaped_chars_def backslash_def split: if_splits)

lemma concat_compile_no_star: "concat (map compile_char p) @ t = x # xs \<Longrightarrow> t = [] \<or> hd t \<noteq> CHR ''*'' \<Longrightarrow> x \<noteq> CHR ''*''"
  by (cases p) (auto dest: compile_char_no_star)

lemma rds_compile_char:
  "t = [] \<or> hd t \<noteq> CHR ''*'' \<Longrightarrow>
   replace_double_star (compile_char c @ t) = compile_char c @ replace_double_star t"
  by (cases t) (auto simp: compile_char_def escaped_chars_def backslash_def)

lemma rds_concat:
  "replace_double_star (concat (map compile_char p)) = concat (map compile_char p)"
proof (induction p)
  case Nil
  show ?case by simp
next
  case (Cons c p)
  have "concat (map compile_char p) = [] \<or> hd (concat (map compile_char p)) \<noteq> CHR ''*''"
    using concat_compile_no_star [of p "[]"] by (cases "concat (map compile_char p)") auto
  then show ?case using Cons by (simp add: rds_compile_char)
qed

lemma parse_items_compile:
  "parse_items (concat (map compile_char p) @ ''$'') = Some (map item_of p)"
proof (induction p)
  case Nil
  show ?case by (simp add: parse_items.simps)
next
  case (Cons c p)
  let ?t = "concat (map compile_char p) @ ''$''"
  have nostar: "\<And>x xs. ?t = x # xs \<Longrightarrow> x \<noteq> CHR ''*''"
    using concat_compile_no_star [of p "''$''"] by auto
  have ne: "?t \<noteq> []" by simp
  then obtain x xs where t: "?t = x # xs" by (cases ?t) auto
  with nostar have x: "x \<noteq> CHR ''*''" by blast
  show ?case
  proof (cases "c = CHR ''*''")
    case True
    then have cc: "compile_char c = ''[^.]*''" and io: "item_of c = Star NotDot"
      by (simp_all add: compile_char_def item_of_def)
    have "parse_items (''[^.]*'' @ ?t) = map_option (Cons (Star NotDot)) (parse_items ?t)"
      by (subst parse_items.simps) (simp add: backslash_def escaped_chars_def)
    with Cons show ?thesis by (simp add: cc io)
  next
    case False
    then have io: "item_of c = One (Lit c)" by (simp add: item_of_def)
    show ?thesis
    proof (cases "c \<in> set escaped_chars")
      case True
      with False have cc: "compile_char c = [backslash, c]" by (simp add: compile_char_def)
      from True have "parse_items (backslash # c # ?t) = map_option (Cons (One (Lit c))) (parse_items ?t)"
        using t x by (subst parse_items.simps) (auto simp: backslash_def)
      with Cons show ?thesis by (simp add: cc io)
    next
      case nesc: False
      with False have cc: "compile_char c = [c]" by (simp add: compile_char_def)
      from nesc False have "parse_items (c # ?t) = map_option (Cons (One (Lit c))) (parse_items ?t)"
        using t x by (subst parse_items.simps) (auto simp: backslash_def escaped_chars_def)
      with Cons show ?thesis by (simp add: cc io)
    qed
  qed
qed

lemma parse_regex_source: "parse_regex (regex_source p) = Some (map item_of p)"
  using parse_items_compile [of p]
  by (simp add: parse_regex_def regex_source_def replace_star_escape rds_concat)

lemma re_match_star_notdot:
  "re_match (Star NotDot # r) s \<longleftrightarrow>
   (\<exists>n \<in> {0..length s}. CHR ''.'' \<notin> set (take n s) \<and> re_match r (drop n s))"
proof (induction s)
  case Nil
  show ?case by simp
next
  case (Cons c cs)
  show ?case (is "?L = ?R")
  proof
    assume ?L
    then consider "re_match r (c # cs)" | "c \<noteq> CHR ''.''" "re_match (Star NotDot # r) cs" by auto
    then show ?R
    proof cases
      case 1
      then show ?thesis by (intro bexI [of _ 0]) auto
    next
      case 2
      with Cons obtain n where "n \<le> length cs" "CHR ''.'' \<notin> set (take n cs)" "re_match r (drop n cs)" by auto
      with 2 show ?thesis by (intro bexI [of _ "Suc n"]) auto
    qed
  next
    assume ?R
    then obtain n where n: "n \<le> length (c # cs)" "CHR ''.'' \<notin> set (take n (c # cs))" "re_match r (drop n (c # cs))" by auto
    show ?L
    proof (cases n)
      case 0
      with n show ?thesis by simp
    next
      case (Suc m)
      with n have "m \<in> {0..length cs}" "CHR ''.'' \<notin> set (take m cs)" "re_match r (drop m cs)" "c \<noteq> CHR ''.''" by auto
      with Cons show ?thesis by auto
    qed
  qed
qed

lemma re_match_glob: "re_match (map item_of p) s = glob_match p s"
proof (induction p arbitrary: s)
  case Nil
  show ?case by simp
next
  case (Cons c p)
  show ?case
  proof (cases "c = CHR ''*''")
    case True
    then show ?thesis using Cons by (simp add: item_of_def re_match_star_notdot del: re_match.simps)
  next
    case False
    then show ?thesis using Cons by (cases s) (auto simp: item_of_def)
  qed
qed

text \<open>
  The third replacement never finds anything to replace: after the second one every
  \<^verbatim>\<open>*\<close> of the text follows a \<^verbatim>\<open>]\<close>.
\<close>

lemma third_replacement_is_identity:
  "replace_double_star (replace_star (escape_special pattern)) = replace_star (escape_special pattern)"
  by (simp add: replace_star_escape rds_concat)

text \<open>
  C2. The claim: in a compiled filter pattern \<^verbatim>\<open>**\<close> matches any sequence of characters,
  delimiters included, so that \<^verbatim>\<open>**.name\<close> selects \<^verbatim>\<open>user.name\<close>,
  \<^verbatim>\<open>user.address.name\<close> and the bare path \<^verbatim>\<open>name\<close>. The program replaces every
  \<^verbatim>\<open>*\<close> before it looks for \<^verbatim>\<open>**\<close>: of the three paths the compiled pattern
  accepts only \<^verbatim>\<open>user.name\<close>, and the filter keeps only that entry.
\<close>

theorem double_star_does_not_cross_segments:
  "path_test ''**.name'' ''user.name'' = Some True
   \<and> path_test ''**.name'' ''user.address.name'' = Some False
   \<and> path_test ''**.name'' ''name'' = Some False
   \<and> filterByPath [(''user.name'', JStr ''a''), (''user.address.name'', JStr ''b''), (''name'', JStr ''c'')]
         ''**.name''
       = Inr (RecordObject [(''user.name'', JStr ''a'')] True)"
  by (simp add: eval_filter_defs filterByPath_def eval_defs)

text \<open>
  C3, as the claim states it: a lone \<^verbatim>\<open>*\<close> matches exactly one non-empty segment,
  whatever the configured delimiter. The compiled pattern accepts an empty segment, and
  with the delimiter \<^verbatim>\<open>/\<close> a \<^verbatim>\<open>*\<close> runs over two segments.
\<close>

theorem star_empty_segment_and_other_delimiter:
  "path_test ''user.*'' ''user.'' = Some True
   \<and> path_test ''user/*'' ''user/address/city'' = Some True"
  by (simp add: eval_filter_defs)

text \<open>
  C3, amended. For every pattern and every path the compiled expression is well formed
  and decides exactly the glob reading of the pattern: each character other than
  \<^verbatim>\<open>*\<close> matches itself and nothing else (every regex metacharacter is escaped), a lone
  \<^verbatim>\<open>*\<close> matches zero or more characters other than the dot, whatever delimiter is
  configured, and the whole path has to be matched. In particular \<^verbatim>\<open>user.*\<close> matches
  \<^verbatim>\<open>user.name\<close> and \<^verbatim>\<open>user.age\<close> but not \<^verbatim>\<open>user.address.city\<close>. (Each star
  of a longer run is compiled in the same way, which is what C2 is about.)
\<close>

theorem star_matches_run_without_dot:
  "path_test pattern key = Some (glob_match pattern key)
   \<and> path_test ''user.*'' ''user.name'' = Some True
   \<and> path_test ''user.*'' ''user.age'' = Some True
   \<and> path_test ''user.*'' ''user.address.city'' = Some False"
proof -
  have "path_test pattern key = Some (glob_match pattern key)"
    by (simp add: path_test_def parse_regex_source re_match_glob)
  then show ?thesis by (simp add: eval_filter_defs)
qed

theorem star_matches_run_without_dot_witness:
  "glob_match ''user.*'' ''user.name'' \<and> \<not> glob_match ''user.*'' ''user.address.city''"
  using star_matches_run_without_dot [of "''user.*''" "''user.name''"]
    star_matches_run_without_dot [of "''user.*''" "''user.address.city''"]
  by (simp add: eval_filter_defs)

section \<open>Splitting paths\<close>






lemma path_of_Cons: "path_of d pre (k # ss) = path_of d (child_key pre d k) ss"
  by (simp add: path_of_def)

lemma path_of_join:
  "pre \<noteq> [] \<Longrightarrow> path_of d pre ss = join_steps (pre # ss) d"
proof (induction ss arbitrary: pre)
  case Nil
  show ?case by (simp add: path_of_def)
next
  case (Cons k ss)
  then have "path_of d pre (k # ss) = join_steps ((pre @ d @ k) # ss) d"
    by (simp add: path_of_Cons child_key_def)
  also have "\<dots> = join_steps (pre # k # ss) d"
    by (cases ss) auto
  finally show ?case .
qed

lemma path_of_root: "k \<noteq> [] \<Longrightarrow> path_of d [] (k # ss) = join_steps (k # ss) d"
  by (simp add: path_of_Cons child_key_def path_of_join)

section \<open>Own properties and the walk of one entry\<close>

lemma map_of_replace_own:
  "map_of (replace_own k v ps) k' = (if k' = k \<and> map_of ps k \<noteq> None then Some v else map_of ps k')"
  by (induction ps) auto

lemma map_of_insert_index:
  "map_of ps k = None \<Longrightarrow> map_of (insert_index i k v ps) k' = (if k' = k then Some v else map_of ps k')"
  by (induction ps) (auto split: option.splits if_splits)

lemma map_of_snoc:
  "map_of ps k = None \<Longrightarrow> map_of (ps @ [(k, v)]) k' = (if k' = k then Some v else map_of ps k')"
  by (induction ps) (auto split: if_splits)

lemma map_of_define_prop:
  "map_of (define_prop ps k v) k' = (if k' = k then Some v else map_of ps k')"
proof (cases "map_of ps k")
  case None
  then have "k \<notin> fst ` set ps" by (simp add: map_of_eq_None_iff)
  with None show ?thesis
    by (auto simp: define_prop_def map_of_insert_index map_add_def split: option.splits)
next
  case (Some w)
  then have "k \<in> fst ` set ps" by (metis map_of_eq_None_iff option.distinct(1))
  with Some show ?thesis by (simp add: define_prop_def map_of_replace_own)
qed

lemma keys_replace_own: "map fst (replace_own k v ps) = map fst ps"
  by (induction ps) auto

lemma keys_insert_index: "fst ` set (insert_index i k v ps) = insert k (fst ` set ps)"
  by (induction ps) (force split: option.splits)+

lemma keys_define_prop: "fst ` set (define_prop ps k v) = insert k (fst ` set ps)"
proof (cases "k \<in> fst ` set ps")
  case True
  have "fst ` set (replace_own k v ps) = set (map fst (replace_own k v ps))" by simp
  also have "\<dots> = fst ` set ps" by (simp only: keys_replace_own) simp
  finally show ?thesis using True by (auto simp: define_prop_def)
next
  case False
  then show ?thesis by (auto simp: define_prop_def keys_insert_index split: option.splits)
qed

lemma replace_own_same: "map_of ps k = Some v \<Longrightarrow> replace_own k v ps = ps"
  by (induction ps) (auto split: if_splits)

lemma replace_own_twice: "replace_own k v (replace_own k w ps) = replace_own k v ps"
  by (induction ps) auto

lemma replace_own_insert_index:
  "k \<notin> fst ` set ps \<Longrightarrow> replace_own k v (insert_index i k w ps) = insert_index i k v ps"
  by (induction ps) (auto split: option.splits)

lemma replace_own_snoc:
  "k \<notin> fst ` set ps \<Longrightarrow> replace_own k v (ps @ [(k, w)]) = ps @ [(k, v)]"
  by (induction ps) auto

lemma replace_own_define_prop: "replace_own k v (define_prop ps k w) = define_prop ps k v"
  by (simp add: define_prop_def replace_own_twice replace_own_insert_index replace_own_snoc
           split: option.splits)

lemma js_set_shape: "js_set c k v = Inr c' \<Longrightarrow> shape_of c' = shape_of c \<and> shape_of c \<noteq> NoContainer"
  by (cases c) (auto split: if_splits option.splits)


lemma put_child_shape: "shape_of (put_child c k x) = shape_of c"
  by (cases c) auto

lemma assign_path_shape:
  "assign_path c ks v = Inr c' \<Longrightarrow> shape_of c' = shape_of c \<and> shape_of c \<noteq> NoContainer"
proof (induction c ks v arbitrary: c' rule: assign_path.induct)
  case (1 current v)
  then show ?case by (auto dest: js_set_shape)
next
  case (2 current lastKey v)
  then show ?case by (auto dest: js_set_shape)
next
  case (3 current key nextKey keys v)
  show ?case
  proof (cases "js_get current key")
    case (Inl e)
    with 3(3) show ?thesis by simp
  next
    case (Inr c)
    show ?thesis
    proof (cases "c = JUndefined")
      case True
      with 3(3) Inr show ?thesis
        by (auto simp: Let_def put_child_shape split: sum.splits dest!: js_set_shape)
    next
      case False
      with 3(3) Inr obtain x where x: "assign_path c (nextKey # keys) v = Inr x" "c' = put_child current key x"
        by (auto split: sum.splits)
      from 3(2) [OF Inr False x(1)] have "shape_of c \<noteq> NoContainer" by simp
      moreover from Inr have "shape_of c \<noteq> NoContainer \<Longrightarrow> shape_of current \<noteq> NoContainer"
        by (cases current) (auto split: option.splits if_splits)
      ultimately show ?thesis using x by (simp add: put_child_shape)
    qed
  qed
qed





















section \<open>Root scalars\<close>

text \<open>
  C5, as the claim states it: unflattening the single entry with the empty key returns
  the scalar itself as the root. The program returns a map with the one key \<^verbatim>\<open>""\<close>.
\<close>

theorem root_scalar_comes_back_wrapped:
  "unflatten [('''', JNum (5::int))] ''.'' = Inr (JObj [('''', JNum 5)])
   \<and> unflatten [('''', JNum (5::int))] ''.'' \<noteq> Inr (JNum 5)"
  by (simp add: eval_defs)

text \<open>
  C5, amended. For every leaf value (a scalar or an empty-container marker) and every
  non-empty delimiter, unflattening the single entry whose key is the empty string
  returns the one-key map that holds the value under the key \<^verbatim>\<open>""\<close>, not the value
  itself; dually, flattening a root scalar or an empty root container emits it under the
  key \<^verbatim>\<open>""\<close>.
\<close>

theorem root_leaf_under_empty_key:
  assumes "leaf_value x" and "delimiter \<noteq> []"
  shows "unflatten [('''', x)] delimiter = Inr (JObj [('''', x)])
     \<and> flatten x delimiter '''' empty_record = RecordObject [('''', x)] True"
proof -
  from assms(2) have "splitKey '''' delimiter = ['''']"
    by (simp add: splitKey_def js_split_def)
  moreover from assms(1) have "maybeConvertToArray x = Inr x"
    by (cases x) (auto simp: is_numeric_def)
  moreover from assms(1) have "flatten x delimiter '''' empty_record = RecordObject [('''', x)] True"
    by (cases x) (auto simp: record_set_def define_prop_def array_index_def is_numeric_def)
  ultimately show ?thesis
    by (simp add: unflatten_def define_prop_def array_index_def is_numeric_def)
qed

theorem root_leaf_under_empty_key_witness:
  "leaf_value (JNum (5::int)) \<and> ''/'' \<noteq> []
   \<and> unflatten [('''', JNum (5::int))] ''/'' = Inr (JObj [('''', JNum 5)])
   \<and> flatten (JNum (5::int)) ''/'' '''' empty_record = RecordObject [('''', JNum 5)] True"
  using root_leaf_under_empty_key [of "JNum (5::int)" "''/''"] by simp

section \<open>Conflicting entries\<close>


text \<open>
  Where a step below a scalar names a member of a built-in prototype (\<^verbatim>\<open>toString\<close>,
  \<^verbatim>\<open>length\<close> and the like), the walk goes on from that member and need not end in an
  exception: the program can store the entry on the built-in object and return the tree
  without it. The embedding leaves these members out and stops there.
\<close>

lemma builtin_member_step_is_left_out:
  "unflatten [(''a'', JNum (5::int)), (''a.toString.b'', JNum 1)] ''.'' = Inl Unmodelled"
  by (simp add: eval_defs)



section \<open>The shape of intermediate containers\<close>




section \<open>Decimal renderings\<close>

lemma digit_cases: "d < 10 \<Longrightarrow> d \<in> {0, 1, 2, 3, 4, 5, 6, 7, 8, 9::nat}"
  by auto

lemma digit_val_char: "d < 10 \<Longrightarrow> digit_val (digit_char d) = d"
  by (drule digit_cases) (auto simp: digit_val_def digit_char_def)

lemma is_digit_char: "d < 10 \<Longrightarrow> is_digit (digit_char d)"
  by (drule digit_cases) (auto simp: is_digit_def digit_char_def)

lemma digit_char_zero: "d < 10 \<Longrightarrow> digit_char d = CHR ''0'' \<longleftrightarrow> d = 0"
  by (drule digit_cases) (auto simp: digit_char_def)

lemma parseInt_snoc: "parseInt (s @ [c]) = 10 * parseInt s + digit_val c"
  by (simp add: parseInt_def)

lemma parseInt_show_nat: "parseInt (show_nat n) = n"
proof (induction n rule: show_nat.induct)
  case (1 n)
  show ?case
  proof (cases "n < 10")
    case True
    then show ?thesis by (subst show_nat.simps) (simp add: parseInt_def digit_val_char)
  next
    case False
    with 1 show ?thesis
      by (subst show_nat.simps) (simp add: parseInt_snoc digit_val_char)
  qed
qed

lemma show_nat_inj: "show_nat m = show_nat n \<Longrightarrow> m = n"
  by (metis parseInt_show_nat)

lemma show_nat_digits: "show_nat n \<noteq> [] \<and> list_all is_digit (show_nat n)"
proof (induction n rule: show_nat.induct)
  case (1 n)
  show ?case
  proof (cases "n < 10")
    case True
    then show ?thesis by (subst (1 2) show_nat.simps) (simp add: is_digit_char)
  next
    case False
    with 1 show ?thesis
      by (subst (1 2) show_nat.simps) (simp add: is_digit_char)
  qed
qed

lemma is_numeric_show_nat: "is_numeric (show_nat n)"
  using show_nat_digits [of n] by (simp add: is_numeric_def)

lemma hd_show_nat: "hd (show_nat n) = CHR ''0'' \<Longrightarrow> n = 0"
proof (induction n rule: show_nat.induct)
  case (1 n)
  show ?case
  proof (cases "n < 10")
    case True
    with 1(2) show ?thesis by (subst (asm) show_nat.simps) (simp add: digit_char_zero)
  next
    case False
    with 1(2) have "hd (show_nat (n div 10)) = CHR ''0''"
      using show_nat_digits [of "n div 10"] by (subst (asm) show_nat.simps) simp
    with 1(1) False have "n div 10 = 0" by simp
    with False show ?thesis by simp
  qed
qed

lemma show_nat_zero: "show_nat 0 = ''0''"
  by (simp add: show_nat.simps digit_char_def)

lemma array_index_show_nat:
  "array_index (show_nat n) = (if n < 4294967295 then Some n else None)"
  using hd_show_nat [of n]
  by (auto simp: array_index_def is_numeric_show_nat parseInt_show_nat show_nat_zero)

lemma not_numeric_array_index: "\<not> is_numeric k \<Longrightarrow> array_index k = None"
  by (simp add: array_index_def)

section \<open>Finalization\<close>

lemma own_value_js_set:
  "js_set c k v = Inr c' \<Longrightarrow> own_value c' k' = (if k' = k then v else own_value c k')"
  by (cases c) (auto simp: map_of_define_prop split: if_splits option.splits)

lemma array_put_result:
  "array_put arr n x = Inr arr' \<Longrightarrow> shape_of arr = Sequence \<Longrightarrow>
   shape_of arr' = Sequence
   \<and> (\<forall>key. own_value arr' key = (if key = show_nat n then x else own_value arr key))"
  by (auto simp: array_put_def own_value_js_set split: if_splits dest: js_set_shape)

lemma fill_array_shape:
  "fill_array arr ps = Inr r \<Longrightarrow> shape_of arr = Sequence \<Longrightarrow> shape_of r = Sequence"
proof (induction ps arbitrary: arr)
  case Nil
  then show ?case by simp
next
  case (Cons p ps)
  obtain k v where p: "p = (k, v)" by (cases p)
  from Cons(2) p obtain x arr' where
    "array_put arr (parseInt k) x = Inr arr'" "fill_array arr' ps = Inr r"
    by (auto split: sum.splits)
  with Cons(1) [of arr'] Cons(3) show ?case by (auto dest: array_put_result)
qed

lemma fill_array_frame:
  "fill_array arr ps = Inr r \<Longrightarrow> shape_of arr = Sequence \<Longrightarrow>
   \<forall>(k, v) \<in> set ps. parseInt k \<noteq> n \<Longrightarrow>
   own_value r (show_nat n) = own_value arr (show_nat n)"
proof (induction ps arbitrary: arr)
  case Nil
  then show ?case by simp
next
  case (Cons p ps)
  obtain k v where p: "p = (k, v)" by (cases p)
  from Cons(2) p obtain x arr' where
    put: "array_put arr (parseInt k) x = Inr arr'" and rest: "fill_array arr' ps = Inr r"
    by (auto split: sum.splits)
  from array_put_result [OF put Cons(3)] Cons(4) p
  have "shape_of arr' = Sequence" "own_value arr' (show_nat n) = own_value arr (show_nat n)"
    by (auto dest: show_nat_inj)
  with Cons(1) [OF rest] Cons(4) show ?case by simp
qed

lemma fill_array_placed:
  "fill_array arr ps = Inr r \<Longrightarrow> shape_of arr = Sequence \<Longrightarrow> (k, v) \<in> set ps \<Longrightarrow>
   \<exists>(k', v') \<in> set ps. parseInt k' = parseInt k
      \<and> maybeConvertToArray v' = Inr (own_value r (show_nat (parseInt k)))"
proof (induction ps arbitrary: arr k v)
  case Nil
  then show ?case by simp
next
  case (Cons p ps)
  obtain k0 v0 where p: "p = (k0, v0)" by (cases p)
  from Cons(2) p obtain x arr' where
    conv: "maybeConvertToArray v0 = Inr x" and
    put: "array_put arr (parseInt k0) x = Inr arr'" and rest: "fill_array arr' ps = Inr r"
    by (auto split: sum.splits)
  from array_put_result [OF put Cons(3)]
  have arr': "shape_of arr' = Sequence" "own_value arr' (show_nat (parseInt k0)) = x" by auto
  show ?case
  proof (cases "\<exists>(k', v') \<in> set ps. parseInt k' = parseInt k")
    case True
    then obtain k' v' where kv: "(k', v') \<in> set ps" "parseInt k' = parseInt k" by auto
    from Cons(1) [OF rest arr'(1) kv(1)] kv(2) show ?thesis by fastforce
  next
    case False
    with Cons(4) p have same: "parseInt k0 = parseInt k" by auto
    from False have "\<forall>(k', v') \<in> set ps. parseInt k' \<noteq> parseInt k" by auto
    from fill_array_frame [OF rest arr'(1) this] arr'(2) same
    have "own_value r (show_nat (parseInt k)) = x" by simp
    with conv p same show ?thesis by auto
  qed
qed

lemma convert_values_result:
  "convert_values ps = Inr qs \<Longrightarrow>
   list_all2 (\<lambda>(k, v) (k', v'). k' = k \<and> maybeConvertToArray v = Inr v') ps qs"
proof (induction ps arbitrary: qs)
  case Nil
  then show ?case by simp
next
  case (Cons p ps)
  obtain k v where p: "p = (k, v)" by (cases p)
  with Cons(2) obtain x qs' where
    "maybeConvertToArray v = Inr x" "convert_values ps = Inr qs'" "qs = (k, x) # qs'"
    by (auto split: sum.splits)
  with Cons(1) [of qs'] p show ?case by simp
qed

text \<open>
  C8, as the claim states it: a container with any non-numeric key remains a map. The
  container at \<^verbatim>\<open>a\<close> below is created as a sequence by its first entry and is a
  sequence in the result, with the non-numeric key \<^verbatim>\<open>b\<close> stored on it.
\<close>

theorem sequence_keeps_non_numeric_key:
  "unflatten [(''a.0'', JNum (1::int)), (''a.b'', JNum 2)] ''.''
     = Inr (JObj [(''a'', JArr 1 [(''0'', JNum 1), (''b'', JNum 2)])])"
  by (simp add: eval_defs)

text \<open>
  C8, amended. Finalization is applied to maps: a map whose key set is non-empty and
  all numeric becomes a sequence that holds, at the index \<^verbatim>\<open>parseInt(k)\<close> of each
  key \<open>k\<close>, the finalized value of a key with that index (the last one, where several
  keys read as the same number); a map with no key or with a non-numeric key remains a
  map with the same keys, each value finalized, so that all-numeric maps nested in maps
  become sequences too. A sequence is returned as it is, whatever keys it holds and
  whatever lies below it: the containers that the walk created as sequences keep that
  shape. In particular \<^verbatim>\<open>unflatten({"0": "x", "1": "y"}, ".")\<close> is the array
  \<^verbatim>\<open>["x", "y"]\<close>.
\<close>

theorem finalization_of_maps:
  "(ps \<noteq> [] \<and> list_all is_numeric (map fst ps) \<and> maybeConvertToArray (JObj ps) = Inr r \<longrightarrow>
      shape_of r = Sequence
      \<and> (\<forall>(k, v) \<in> set ps. \<exists>(k', v') \<in> set ps. parseInt k' = parseInt k
            \<and> maybeConvertToArray v' = Inr (own_value r (show_nat (parseInt k)))))
   \<and> ((ps = [] \<or> \<not> list_all is_numeric (map fst ps)) \<and> maybeConvertToArray (JObj ps) = Inr r \<longrightarrow>
      (\<exists>qs. r = JObj qs
         \<and> list_all2 (\<lambda>(k, v) (k', v'). k' = k \<and> maybeConvertToArray v = Inr v') ps qs))
   \<and> maybeConvertToArray (JArr len es) = Inr (JArr len es)
   \<and> unflatten [(''0'', JStr ''x''), (''1'', JStr ''y'')] ''.''
       = Inr (JArr 2 [(''0'', JStr ''x''), (''1'', JStr ''y'')])
   \<and> maybeConvertToArray (JObj [(''a'', JObj [(''0'', JStr ''x'')])])
       = Inr (JObj [(''a'', JArr 1 [(''0'', JStr ''x'')])])"
proof (intro conjI impI)
  assume a: "ps \<noteq> [] \<and> list_all is_numeric (map fst ps) \<and> maybeConvertToArray (JObj ps) = Inr r"
  then have f: "fill_array (JArr 0 []) ps = Inr r" by auto
  then show "shape_of r = Sequence" by (auto dest: fill_array_shape)
  show "\<forall>(k, v) \<in> set ps. \<exists>(k', v') \<in> set ps. parseInt k' = parseInt k
            \<and> maybeConvertToArray v' = Inr (own_value r (show_nat (parseInt k)))"
    using fill_array_placed [OF f] by auto
next
  assume "(ps = [] \<or> \<not> list_all is_numeric (map fst ps)) \<and> maybeConvertToArray (JObj ps) = Inr r"
  then show "\<exists>qs. r = JObj qs
         \<and> list_all2 (\<lambda>(k, v) (k', v'). k' = k \<and> maybeConvertToArray v = Inr v') ps qs"
    by (auto split: sum.splits dest: convert_values_result)
next
  show "maybeConvertToArray (JArr len es) = Inr (JArr len es)" by simp
next
  show "unflatten [(''0'', JStr ''x''), (''1'', JStr ''y'')] ''.''
       = Inr (JArr 2 [(''0'', JStr ''x''), (''1'', JStr ''y'')])"
    by (simp add: eval_defs)
next
  show "maybeConvertToArray (JObj [(''a'', JObj [(''0'', JStr ''x'')])])
       = Inr (JObj [(''a'', JArr 1 [(''0'', JStr ''x'')])])"
    by (simp add: eval_defs)
qed

theorem finalization_of_maps_witness:
  "maybeConvertToArray (JObj [(''0'', JNum (7::int)), (''1'', JNum 8)])
     = Inr (JArr 2 [(''0'', JNum 7), (''1'', JNum 8)])
   \<and> shape_of (JArr 2 [(''0'', JNum (7::int)), (''1'', JNum 8)]) = Sequence
   \<and> own_value (JArr 2 [(''0'', JNum (7::int)), (''1'', JNum 8)]) ''1'' = JNum 8
   \<and> maybeConvertToArray (JObj [(''a'', JNum (7::int))]) = Inr (JObj [(''a'', JNum 7)])"
  using finalization_of_maps
          [where ps = "[(''0'', JNum (7::int)), (''1'', JNum 8)]"
             and r = "JArr 2 [(''0'', JNum 7), (''1'', JNum 8)]"]
        finalization_of_maps
          [where ps = "[(''a'', JNum (7::int))]" and r = "JObj [(''a'', JNum 7)]"]
  by (simp add: eval_defs)

section \<open>The order of the flat mapping\<close>

lemma fold_concat_map: "fold f (concat (map g xs)) r = fold (\<lambda>x. fold f (g x)) xs r"
  by (induction xs arbitrary: r) auto

lemma flatten_fold_preorder:
  "flatten v d pre result = fold store (preorder v d pre) result"
proof (induction v d pre result rule: flatten.induct)
  case (6 len ps delimiter pre result)
  show ?case
  proof (cases "len = 0")
    case True
    then show ?thesis by (simp add: store_def)
  next
    case False
    have "fold (\<lambda>i res. flatten (array_get ps i) delimiter (child_key pre delimiter (show_nat i)) res)
            is result
        = fold (\<lambda>i. fold store (preorder (array_get ps i) delimiter (child_key pre delimiter (show_nat i))))
            is result" if "set is \<subseteq> {0..<len}" for "is" result
      using that
    proof (induction "is" arbitrary: result)
      case Nil
      show ?case by simp
    next
      case (Cons i "is")
      then have "i \<in> set [0..<len]" by simp
      from 6 [OF False this] Cons show ?case by simp
    qed
    then have "fold (\<lambda>i res. flatten (array_get ps i) delimiter (child_key pre delimiter (show_nat i)) res)
            [0..<len] result
        = fold (\<lambda>i. fold store (preorder (array_get ps i) delimiter (child_key pre delimiter (show_nat i))))
            [0..<len] result" by simp
    with False show ?thesis by (simp add: fold_concat_map)
  qed
next
  case (7 ps delimiter pre result)
  show ?case
  proof (cases "ps = []")
    case True
    then show ?thesis by (simp add: store_def)
  next
    case False
    have "fold (\<lambda>(key, v) res. flatten v delimiter (child_key pre delimiter key) res) qs result
        = fold (\<lambda>(key, v). fold store (preorder v delimiter (child_key pre delimiter key))) qs result"
      if "set qs \<subseteq> set ps" for qs result
      using that
    proof (induction qs arbitrary: result)
      case Nil
      show ?case by simp
    next
      case (Cons q qs)
      obtain key v where q: "q = (key, v)" by (cases q)
      with Cons(2) have "(key, v) \<in> set ps" by simp
      from 7 [OF False this refl] Cons q show ?case by simp
    qed
    then have "fold (\<lambda>(key, v) res. flatten v delimiter (child_key pre delimiter key) res) ps result
        = fold (\<lambda>(key, v). fold store (preorder v delimiter (child_key pre delimiter key))) ps result"
      by simp
    with False show ?thesis by (simp add: fold_concat_map case_prod_unfold)
  qed
qed (simp_all add: store_def)

lemma fold_store_append:
  "distinct (map fst (ps @ es)) \<Longrightarrow>
   \<forall>k \<in> fst ` set es. array_index k = None \<and> k \<noteq> ''__proto__'' \<Longrightarrow>
   fold store es (RecordObject ps reached) = RecordObject (ps @ es) reached"
proof (induction es arbitrary: ps)
  case Nil
  show ?case by simp
next
  case (Cons e es)
  obtain k x where e: "e = (k, x)" by (cases e)
  with Cons(2,3) have "store e (RecordObject ps reached) = RecordObject (ps @ [(k, x)]) reached"
    by (auto simp: store_def record_set_def define_prop_def)
  with Cons(1) [of "ps @ [e]"] Cons(2,3) e show ?case by simp
qed

text \<open>
  C4, as the claim states it: the flat mapping iterates in the pre-order of the tree.
  The elements of the root sequence \<^verbatim>\<open>[{"a": 1}, 5]\<close> are visited in the order
  \<^verbatim>\<open>0.a\<close>, \<^verbatim>\<open>1\<close>, but the returned mapping iterates \<^verbatim>\<open>1\<close> first: a path that is an
  array index is enumerated before every other key. For the same reason a map parsed
  from the text \<^verbatim>\<open>{"b": 1, "10": 2, "9": 3}\<close> is visited in the order \<^verbatim>\<open>9\<close>,
  \<^verbatim>\<open>10\<close>, \<^verbatim>\<open>b\<close>.
\<close>

theorem index_paths_iterate_first:
  "map fst (own_props (flatten (JArr 2 [(''0'', JObj [(''a'', JNum (1::int))]), (''1'', JNum 5)])
              ''.'' '''' empty_record))
     = [''1'', ''0.a'']
   \<and> map fst (preorder (JArr 2 [(''0'', JObj [(''a'', JNum (1::int))]), (''1'', JNum 5)]) ''.'' '''')
     = [''0.a'', ''1'']
   \<and> map fst (own_props (flatten (object_of_members [(''b'', JNum (1::int)), (''10'', JNum 2), (''9'', JNum 3)])
              ''.'' '''' empty_record))
     = [''9'', ''10'', ''b'']"
  by (simp add: eval_defs object_of_members_def)

text \<open>
  C4, amended. For every value and delimiter, flatten stores the leaves in depth-first
  pre-order, the members of a map in the order in which the object enumerates its keys
  (array-index keys first, ascending, then the others as created) and the elements of a
  sequence by increasing index. The returned mapping iterates in exactly that order
  whenever the paths of the leaves are pairwise distinct and none of them is an
  array-index string or \<^verbatim>\<open>__proto__\<close>.
\<close>

theorem flatten_stores_in_preorder:
  "flatten v delimiter pre result
     = fold (\<lambda>(k, x) r. record_set r k x) (preorder v delimiter pre) result
   \<and> (distinct (map fst (preorder v delimiter ''''))
        \<and> (\<forall>k \<in> set (map fst (preorder v delimiter '''')). array_index k = None \<and> k \<noteq> ''__proto__'')
      \<longrightarrow> flatten v delimiter '''' empty_record = RecordObject (preorder v delimiter '''') True)"
proof -
  have s: "store = (\<lambda>(k, x) r. record_set r k x)"
    by (auto simp: store_def fun_eq_iff)
  have "flatten v delimiter pre result = fold store (preorder v delimiter pre) result"
    by (rule flatten_fold_preorder)
  moreover have "flatten v delimiter '''' empty_record = RecordObject (preorder v delimiter '''') True"
    if "distinct (map fst (preorder v delimiter ''''))"
      and "\<forall>k \<in> set (map fst (preorder v delimiter '''')). array_index k = None \<and> k \<noteq> ''__proto__''"
    using that fold_store_append [of "[]" "preorder v delimiter ''''" True]
    by (simp add: flatten_fold_preorder)
  ultimately show ?thesis by (simp add: s)
qed

theorem flatten_stores_in_preorder_witness:
  "flatten (JObj [(''user'', JObj [(''name'', JStr ''J''),
                                     (''tags'', JArr 2 [(''0'', JNum (1::int)), (''1'', JNum 2)])])])
     ''.'' '''' empty_record
   = RecordObject [(''user.name'', JStr ''J''), (''user.tags.0'', JNum 1), (''user.tags.1'', JNum 2)] True
   \<and> preorder (JObj [(''user'', JObj [(''name'', JStr ''J''),
                                     (''tags'', JArr 2 [(''0'', JNum (1::int)), (''1'', JNum 2)])])])
     ''.'' ''''
   = [(''user.name'', JStr ''J''), (''user.tags.0'', JNum 1), (''user.tags.1'', JNum 2)]"
  using flatten_stores_in_preorder
          [of "JObj [(''user'', JObj [(''name'', JStr ''J''),
                                     (''tags'', JArr 2 [(''0'', JNum (1::int)), (''1'', JNum 2)])])]"
              "''.''" "''''" empty_record]
  by (simp add: eval_defs)

section \<open>Encoding and decoding paths\<close>

lemma preorder_leaf_steps:
  "preorder v d pre = map (\<lambda>(ss, x). (path_of d pre ss, x)) (leaf_steps v)"
proof (induction v d pre rule: preorder.induct)
  case (6 len ps delimiter pre)
  show ?case
  proof (cases "len = 0")
    case True
    then show ?thesis by (simp add: path_of_def)
  next
    case False
    have "preorder (array_get ps i) delimiter (child_key pre delimiter (show_nat i))
        = map (\<lambda>(ss, x). (path_of delimiter pre ss, x)) (under (show_nat i) (leaf_steps (array_get ps i)))"
      if "i \<in> set [0..<len]" for i
      using 6 [OF False that] by (simp add: under_def path_of_Cons case_prod_unfold comp_def)
    then have "map (\<lambda>i. preorder (array_get ps i) delimiter (child_key pre delimiter (show_nat i))) [0..<len]
        = map (\<lambda>i. map (\<lambda>(ss, x). (path_of delimiter pre ss, x))
                      (under (show_nat i) (leaf_steps (array_get ps i)))) [0..<len]"
      by (intro map_cong) auto
    then have "concat (map (\<lambda>i. preorder (array_get ps i) delimiter (child_key pre delimiter (show_nat i))) [0..<len])
        = concat (map (\<lambda>i. map (\<lambda>(ss, x). (path_of delimiter pre ss, x))
                      (under (show_nat i) (leaf_steps (array_get ps i)))) [0..<len])"
      by (rule arg_cong)
    also have "\<dots> = map (\<lambda>(ss, x). (path_of delimiter pre ss, x)) (leaf_steps (JArr len ps))"
      using False by (simp add: map_concat comp_def)
    finally show ?thesis using False by simp
  qed
next
  case (7 ps delimiter pre)
  show ?case
  proof (cases "ps = []")
    case True
    then show ?thesis by (simp add: path_of_def)
  next
    case False
    have "preorder v delimiter (child_key pre delimiter key)
        = map (\<lambda>(ss, x). (path_of delimiter pre ss, x)) (under key (leaf_steps v))"
      if "(key, v) \<in> set ps" for key v
      using 7 [OF False that refl] by (simp add: under_def path_of_Cons case_prod_unfold comp_def)
    then have "map (\<lambda>(key, v). preorder v delimiter (child_key pre delimiter key)) ps
        = map (\<lambda>(key, v). map (\<lambda>(ss, x). (path_of delimiter pre ss, x)) (under key (leaf_steps v))) ps"
      by (intro map_cong) auto
    then have "concat (map (\<lambda>(key, v). preorder v delimiter (child_key pre delimiter key)) ps)
        = concat (map (\<lambda>(key, v). map (\<lambda>(ss, x). (path_of delimiter pre ss, x)) (under key (leaf_steps v))) ps)"
      by (rule arg_cong)
    also have "\<dots> = map (\<lambda>(ss, x). (path_of delimiter pre ss, x)) (leaf_steps (JObj ps))"
      using False by (simp add: map_concat comp_def case_prod_unfold)
    finally show ?thesis using False by simp
  qed
qed (simp_all add: path_of_def)






section \<open>Round trip\<close>

lemma split_from_skip:
  "d \<noteq> [] \<Longrightarrow> set s \<inter> set d = {} \<Longrightarrow> split_from d acc (s @ rest) = split_from d (acc @ s) rest"
proof (induction s arbitrary: acc)
  case Nil
  show ?case by simp
next
  case (Cons c s)
  from Cons(2,3) have "\<not> prefix d (c # s @ rest)"
    by (cases d) (auto simp: prefix_def)
  with Cons show ?case by simp
qed

lemma split_from_delimiter:
  "d \<noteq> [] \<Longrightarrow> split_from d acc (d @ rest) = acc # split_from d [] rest"
  by (cases d) auto

lemma split_from_join:
  "d \<noteq> [] \<Longrightarrow> ss \<noteq> [] \<Longrightarrow> \<forall>s \<in> set ss. set s \<inter> set d = {} \<Longrightarrow>
   split_from d acc (join_steps ss d) = (acc @ hd ss) # tl ss"
proof (induction ss d arbitrary: acc rule: join_steps.induct)
  case (1 d)
  then show ?case by simp
next
  case (2 s d)
  then show ?case using split_from_skip [of d s acc "[]"] by simp
next
  case (3 s t ss d)
  from 3(2,4) have "split_from d acc (s @ d @ join_steps (t # ss) d)
      = split_from d (acc @ s) (d @ join_steps (t # ss) d)"
    by (intro split_from_skip) auto
  also from 3(2) have "\<dots> = (acc @ s) # split_from d [] (join_steps (t # ss) d)"
    by (rule split_from_delimiter)
  also from 3 have "split_from d [] (join_steps (t # ss) d) = t # ss" by simp
  finally show ?case by simp
qed

lemma splitKey_join:
  "d \<noteq> [] \<Longrightarrow> ss \<noteq> [] \<Longrightarrow> \<forall>s \<in> set ss. set s \<inter> set d = {} \<Longrightarrow>
   splitKey (join_steps ss d) d = ss"
  using split_from_join [of d ss "[]"] split_from_join [of "''.''" ss "[]"]
  by (auto simp: splitKey_def js_split_def)

lemma place_steps_append:
  "place_steps cur (es1 @ es2) =
     (case place_steps cur es1 of Inl e \<Rightarrow> Inl e | Inr cur' \<Rightarrow> place_steps cur' es2)"
  by (induction es1 arbitrary: cur) (auto split: sum.splits)

lemma place_entries_steps:
  "\<forall>(ss, x) \<in> set es. splitKey (f ss) d = ss \<Longrightarrow>
   place_entries cur (map (\<lambda>(ss, x). (f ss, x)) es) d = place_steps cur es"
  by (induction es arbitrary: cur) (auto split: sum.splits)

lemma put_child_same:
  "js_get cur k = Inr c \<Longrightarrow> shape_of c \<noteq> NoContainer \<Longrightarrow> put_child cur k c = cur"
  by (cases cur) (auto simp: replace_own_same split: option.splits if_splits)

lemma put_child_twice: "put_child (put_child cur k c) k c' = put_child cur k c'"
  by (cases cur) (auto simp: replace_own_twice)

lemma js_get_put_child:
  "js_get cur k = Inr c \<Longrightarrow> shape_of c \<noteq> NoContainer \<Longrightarrow> js_get (put_child cur k c') k = Inr c'"
  by (cases cur) (auto simp: map_of_replace_own split: option.splits if_splits)

lemma js_get_after_set: "js_set cur k w = Inr cur1 \<Longrightarrow> js_get cur1 k = Inr w"
  by (cases cur) (auto simp: map_of_define_prop split: option.splits if_splits)

lemma put_child_after_set: "js_set cur k w = Inr cur1 \<Longrightarrow> js_set cur k v = Inr (put_child cur1 k v)"
  by (cases cur) (auto simp: replace_own_define_prop split: option.splits if_splits)

lemma place_steps_under_existing:
  "js_get cur k = Inr c \<Longrightarrow> shape_of c \<noteq> NoContainer \<Longrightarrow> \<forall>e \<in> set es. fst e \<noteq> [] \<Longrightarrow>
   place_steps cur (under k es) =
     (case place_steps c es of Inl e \<Rightarrow> Inl e | Inr c' \<Rightarrow> Inr (put_child cur k c'))"
proof (induction es arbitrary: cur c)
  case Nil
  then show ?case by (simp add: under_def put_child_same)
next
  case (Cons e es)
  obtain ss x where e: "e = (ss, x)" by (cases e)
  with Cons(4) obtain s ss' where ss: "ss = s # ss'" by (cases ss) auto
  from Cons(3) have cu: "c \<noteq> JUndefined" by auto
  show ?case
  proof (cases "assign_path c (s # ss') x")
    case (Inl err)
    with Cons(2) cu e ss show ?thesis by (simp add: under_def)
  next
    case (Inr c1)
    then have sh: "shape_of c1 \<noteq> NoContainer" by (auto dest: assign_path_shape)
    from Cons(2,3) have get: "js_get (put_child cur k c1) k = Inr c1" by (rule js_get_put_child)
    from Cons(4) have "\<forall>e \<in> set es. fst e \<noteq> []" by simp
    from Cons(1) [OF get sh this]
    have "place_steps (put_child cur k c1) (under k es) =
       (case place_steps c1 es of Inl e \<Rightarrow> Inl e | Inr c' \<Rightarrow> Inr (put_child cur k c'))"
      by (simp add: put_child_twice split: sum.splits)
    with Inr Cons(2) cu e ss show ?thesis by (simp add: under_def)
  qed
qed

lemma place_steps_under_fresh:
  assumes "js_get cur k = Inr JUndefined"
    and "js_set cur k v = Inr cur2"
    and "es \<noteq> []" and "\<forall>e \<in> set es. fst e \<noteq> []"
    and "fresh = (if is_numeric (hd (fst (hd es))) then JArr 0 [] else JObj [])"
    and "place_steps fresh es = Inr v"
  shows "place_steps cur (under k es) = Inr cur2"
proof -
  from assms(3) obtain e es' where es: "es = e # es'" by (cases es) auto
  obtain ss x where e: "e = (ss, x)" by (cases e)
  with assms(4) es obtain s ss' where ss: "ss = s # ss'" by (cases ss) auto
  from assms(5) es e ss have fresh: "fresh = (if is_numeric s then JArr 0 [] else JObj [])" by simp
  from assms(2) obtain cur1 where cur1: "js_set cur k fresh = Inr cur1"
    by (cases cur) (auto split: option.splits if_splits)
  from assms(6) es e ss obtain c1 where
    c1: "assign_path fresh (s # ss') x = Inr c1" and rest: "place_steps c1 es' = Inr v"
    by (auto split: sum.splits)
  from c1 have sh: "shape_of c1 \<noteq> NoContainer" by (auto dest: assign_path_shape)
  from cur1 have "js_get cur1 k = Inr fresh" by (rule js_get_after_set)
  moreover have "shape_of fresh \<noteq> NoContainer" by (simp add: fresh)
  ultimately have get: "js_get (put_child cur1 k c1) k = Inr c1" by (rule js_get_put_child)
  from assms(4) es have "\<forall>e \<in> set es'. fst e \<noteq> []" by simp
  from place_steps_under_existing [OF get sh this] rest
  have "place_steps (put_child cur1 k c1) (under k es') = Inr (put_child cur1 k v)"
    by (simp add: put_child_twice)
  moreover from cur1 assms(2) have "Inr (put_child cur1 k v) = Inr cur2"
    using put_child_after_set [OF cur1, of v] by simp
  moreover from assms(1) cur1 c1 fresh
  have "assign_path cur (k # s # ss') x = Inr (put_child cur1 k c1)"
    by (simp add: Let_def)
  ultimately show ?thesis by (simp add: es e ss under_def)
qed

lemma leaf_steps_nonempty: "leaf_steps v \<noteq> []"
proof (induction v rule: leaf_steps.induct)
  case (6 len ps)
  show ?case
  proof (cases "len = 0")
    case True
    then show ?thesis by simp
  next
    case False
    then have "0 \<in> set [0..<len]" by simp
    from 6 [OF False this] have "under (show_nat 0) (leaf_steps (array_get ps 0)) \<noteq> []"
      by (simp add: under_def)
    moreover from False have "[0..<len] = 0 # [Suc 0..<len]" by (simp add: upt_conv_Cons)
    ultimately show ?thesis using False by simp
  qed
next
  case (7 ps)
  show ?case
  proof (cases ps)
    case Nil
    then show ?thesis by simp
  next
    case (Cons p qs)
    obtain key v where p: "p = (key, v)" by (cases p)
    with Cons have "(key, v) \<in> set ps" by simp
    from 7 [OF _ this refl] Cons have "under key (leaf_steps v) \<noteq> []" by (simp add: under_def)
    with Cons p show ?thesis by simp
  qed
qed simp_all

lemma hd_under: "es \<noteq> [] \<Longrightarrow> hd (fst (hd (under k es @ rest))) = k"
  by (cases es) (auto simp: under_def)

lemma under_steps_nonempty: "\<forall>e \<in> set (under k es). fst e \<noteq> []"
  by (auto simp: under_def)

lemma numeric_not_inherited: "is_numeric k \<Longrightarrow> k \<notin> set array_inherited"
  by (auto simp: array_inherited_def object_inherited_def is_numeric_def is_digit_def)

lemma insert_index_append:
  "\<forall>p \<in> set qs. \<exists>j < i. array_index (fst p) = Some j \<Longrightarrow> insert_index i k v qs = qs @ [(k, v)]"
  by (induction qs) auto

lemma dense_length: "map fst ps = map show_nat [0..<len] \<Longrightarrow> length ps = len"
  by (metis length_map length_upt minus_nat.diff_0)

lemma dense_nth:
  assumes "map fst ps = map show_nat [0..<len]" and "i < len"
  shows "fst (ps ! i) = show_nat i"
proof -
  from assms have l: "length ps = len" by (simp add: dense_length)
  from l assms(2) have "fst (ps ! i) = map fst ps ! i" by (simp add: nth_map)
  also have "\<dots> = map show_nat [0..<len] ! i" by (simp only: assms(1))
  also from assms(2) have "\<dots> = show_nat i" by simp
  finally show ?thesis .
qed

lemma dense_distinct: "map fst ps = map show_nat [0..<len] \<Longrightarrow> distinct (map fst ps)"
  by (simp add: distinct_map inj_on_def) (metis show_nat_inj)

lemma dense_array_get:
  assumes "map fst ps = map show_nat [0..<len]" and "i < len"
  shows "array_get ps i = snd (ps ! i)"
proof -
  from assms have l: "length ps = len" by (simp add: dense_length)
  with assms have "(show_nat i, snd (ps ! i)) \<in> set ps"
    using dense_nth [OF assms] by (metis nth_mem prod.collapse)
  with dense_distinct [OF assms(1)] have "map_of ps (show_nat i) = Some (snd (ps ! i))"
    by (rule map_of_is_SomeI)
  then show ?thesis by (simp add: array_get_def)
qed

lemma dense_take_keys:
  assumes "map fst ps = map show_nat [0..<len]" and "i \<le> len"
  shows "map fst (take i ps) = map show_nat [0..<i]"
proof -
  have "map fst (take i ps) = take i (map fst ps)" by (simp add: take_map)
  also from assms have "\<dots> = map show_nat (take i [0..<len])" by (simp add: take_map)
  also from assms(2) have "take i [0..<len] = [0..<i]" by (simp add: take_upt)
  finally show ?thesis .
qed

lemma dense_step:
  assumes keys: "map fst ps = map show_nat [0..<len]" and len: "len < 4294967295" and i: "i < len"
  shows "js_get (JArr i (take i ps)) (show_nat i) = Inr JUndefined"
    and "js_set (JArr i (take i ps)) (show_nat i) (array_get ps i) = Inr (JArr (Suc i) (take (Suc i) ps))"
proof -
  let ?x = "array_get ps i"
  from keys i have tk: "map fst (take i ps) = map show_nat [0..<i]"
    by (intro dense_take_keys) auto
  have notin: "show_nat i \<notin> fst ` set (take i ps)"
  proof -
    have "fst ` set (take i ps) = set (map fst (take i ps))" by simp
    also have "\<dots> = show_nat ` {0..<i}" by (simp only: tk) simp
    finally show ?thesis by (auto dest: show_nat_inj)
  qed
  then have "map_of (take i ps) (show_nat i) = None" by (simp add: map_of_eq_None_iff)
  then show "js_get (JArr i (take i ps)) (show_nat i) = Inr JUndefined"
    by (simp add: numeric_not_inherited is_numeric_show_nat)
  have small: "\<forall>p \<in> set (take i ps). \<exists>j < i. array_index (fst p) = Some j"
  proof
    fix p assume "p \<in> set (take i ps)"
    then have "fst p \<in> set (map fst (take i ps))" by simp
    then obtain j where "j < i" "fst p = show_nat j" by (auto simp: tk)
    with i len show "\<exists>j < i. array_index (fst p) = Some j"
      by (auto simp: array_index_show_nat)
  qed
  from keys i have nth: "ps ! i = (show_nat i, ?x)"
    by (metis dense_nth dense_array_get prod.collapse)
  from keys have l: "length ps = len" by (rule dense_length)
  from i len have ai: "array_index (show_nat i) = Some i" by (simp add: array_index_show_nat)
  have "define_prop (take i ps) (show_nat i) ?x = take i ps @ [(show_nat i, ?x)]"
    using notin ai small by (simp add: define_prop_def insert_index_append)
  also from i l nth have "\<dots> = take (Suc i) ps" by (simp add: take_Suc_conv_app_nth)
  finally show "js_set (JArr i (take i ps)) (show_nat i) ?x = Inr (JArr (Suc i) (take (Suc i) ps))"
    using ai by simp
qed

lemma array_children:
  assumes keys: "map fst ps = map show_nat [0..<len]" and len: "len < 4294967295"
    and IH: "\<And>i cur k cur2. i < len \<Longrightarrow> js_get cur k = Inr JUndefined \<Longrightarrow>
               js_set cur k (array_get ps i) = Inr cur2 \<Longrightarrow>
               place_steps cur (under k (leaf_steps (array_get ps i))) = Inr cur2"
  shows "n \<le> len \<Longrightarrow>
     place_steps (JArr (len - n) (take (len - n) ps))
       (concat (map (\<lambda>i. under (show_nat i) (leaf_steps (array_get ps i))) [len - n..<len]))
     = Inr (JArr len ps)"
proof (induction n)
  case 0
  from keys have "length ps = len" by (rule dense_length)
  then show ?case by simp
next
  case (Suc n)
  define i where "i = len - Suc n"
  with Suc(2) have i: "i < len" "len - n = Suc i" by auto
  from IH [OF i(1) dense_step [OF keys len i(1)]]
  have one: "place_steps (JArr i (take i ps)) (under (show_nat i) (leaf_steps (array_get ps i)))
      = Inr (JArr (Suc i) (take (Suc i) ps))" .
  from i have "[i..<len] = i # [Suc i..<len]" by (simp add: upt_conv_Cons)
  with one Suc i show ?case
    by (simp add: i_def [symmetric] place_steps_append)
qed

lemma map_children:
  assumes IH: "\<And>key v cur k cur2. (key, v) \<in> set ps \<Longrightarrow> js_get cur k = Inr JUndefined \<Longrightarrow>
               js_set cur k v = Inr cur2 \<Longrightarrow>
               place_steps cur (under k (leaf_steps v)) = Inr cur2"
  shows "set qs \<subseteq> set ps \<Longrightarrow> distinct (map fst (acc @ qs)) \<Longrightarrow>
     \<forall>p \<in> set qs. key_ok d (fst p) \<Longrightarrow>
     place_steps (JObj acc) (concat (map (\<lambda>(key, v). under key (leaf_steps v)) qs))
     = Inr (JObj (acc @ qs))"
proof (induction qs arbitrary: acc)
  case Nil
  show ?case by simp
next
  case (Cons q qs)
  obtain key v where q: "q = (key, v)" by (cases q)
  from Cons(3) q have notin: "key \<notin> fst ` set acc" by auto
  then have none: "map_of acc key = None" by (simp add: map_of_eq_None_iff)
  from Cons(4) q have ok: "\<not> is_numeric key" "key \<notin> set object_inherited"
    by (auto simp: key_ok_def)
  from none ok have get: "js_get (JObj acc) key = Inr JUndefined" by simp
  from ok have "key \<noteq> ''__proto__''" by (auto simp: object_inherited_def)
  with notin ok have set: "js_set (JObj acc) key v = Inr (JObj (acc @ [(key, v)]))"
    by (simp add: define_prop_def not_numeric_array_index)
  from Cons(2) q have "(key, v) \<in> set ps" by auto
  from IH [OF this get set]
  have one: "place_steps (JObj acc) (under key (leaf_steps v)) = Inr (JObj (acc @ [(key, v)]))" .
  from Cons(2,3,4) q have "place_steps (JObj (acc @ [(key, v)]))
       (concat (map (\<lambda>(key, v). under key (leaf_steps v)) qs)) = Inr (JObj ((acc @ [(key, v)]) @ qs))"
    by (intro Cons(1)) auto
  with one q show ?case by (simp add: place_steps_append)
qed

lemma place_child:
  "tree_ok d v \<Longrightarrow> js_get cur k = Inr JUndefined \<Longrightarrow> js_set cur k v = Inr cur2 \<Longrightarrow>
   place_steps cur (under k (leaf_steps v)) = Inr cur2"
proof (induction v arbitrary: cur k cur2 rule: leaf_steps.induct)
  case (6 len ps)
  show ?case
  proof (cases "len = 0")
    case True
    with 6(2) have "ps = []" by simp
    with True 6(4) show ?thesis by (simp add: under_def)
  next
    case False
    let ?es = "leaf_steps (JArr len ps)"
    from 6(2) have keys: "map fst ps = map show_nat [0..<len]" and len: "len < 4294967295"
      and kids: "\<forall>p \<in> set ps. tree_ok d (snd p)" by auto
    have ok: "tree_ok d (array_get ps i)" if "i < len" for i
    proof -
      from keys that have "array_get ps i = snd (ps ! i)" by (rule dense_array_get)
      moreover from keys that have "ps ! i \<in> set ps" by (simp add: dense_length)
      ultimately show ?thesis using kids by simp
    qed
    have IH: "place_steps cur (under k (leaf_steps (array_get ps i))) = Inr cur2"
      if "i < len" "js_get cur k = Inr JUndefined" "js_set cur k (array_get ps i) = Inr cur2"
      for i cur k cur2
      using 6(1) [OF False _ ok [OF that(1)] that(2,3)] that(1) by simp
    have "place_steps (JArr (len - len) (take (len - len) ps))
         (concat (map (\<lambda>i. under (show_nat i) (leaf_steps (array_get ps i))) [len - len..<len]))
       = Inr (JArr len ps)"
      by (rule array_children [OF keys len]) (auto intro: IH)
    moreover have "?es = concat (map (\<lambda>i. under (show_nat i) (leaf_steps (array_get ps i))) [0..<len])"
      using False by simp
    ultimately have built: "place_steps (JArr 0 []) ?es = Inr (JArr len ps)" by simp
    from False have up: "[0..<len] = 0 # [Suc 0..<len]" by (simp add: upt_conv_Cons)
    have ne: "?es \<noteq> []" by (rule leaf_steps_nonempty)
    have hd: "hd (fst (hd ?es)) = show_nat 0"
      using False up hd_under [OF leaf_steps_nonempty, of "show_nat 0" "array_get ps 0"]
      by simp
    have steps: "\<forall>e \<in> set ?es. fst e \<noteq> []"
      using False by (auto simp: under_def)
    show ?thesis
      by (rule place_steps_under_fresh [OF 6(3) 6(4) ne steps _ built])
         (simp only: hd is_numeric_show_nat if_True)
  qed
next
  case (7 ps)
  show ?case
  proof (cases "ps = []")
    case True
    with 7(4) show ?thesis by (simp add: under_def)
  next
    case False
    let ?es = "leaf_steps (JObj ps)"
    from 7(2) have dist: "distinct (map fst ps)"
      and kids: "\<forall>p \<in> set ps. key_ok d (fst p) \<and> tree_ok d (snd p)" by auto
    have IH: "place_steps cur (under k (leaf_steps v)) = Inr cur2"
      if "(key, v) \<in> set ps" "js_get cur k = Inr JUndefined" "js_set cur k v = Inr cur2"
      for key v cur k cur2
      using 7(1) [OF False that(1) refl _ that(2,3)] kids that(1) by auto
    have "place_steps (JObj []) (concat (map (\<lambda>(key, v). under key (leaf_steps v)) ps))
       = Inr (JObj ([] @ ps))"
      by (rule map_children [where ps = ps and d = d]) (use dist kids in \<open>auto intro: IH\<close>)
    moreover have "?es = concat (map (\<lambda>(key, v). under key (leaf_steps v)) ps)"
      using False by simp
    ultimately have built: "place_steps (JObj []) ?es = Inr (JObj ps)" by simp
    from False obtain key v qs where ps: "ps = (key, v) # qs" by (cases ps) auto
    with kids have nn: "\<not> is_numeric key" by (auto simp: key_ok_def)
    have ne: "?es \<noteq> []" by (rule leaf_steps_nonempty)
    have hd: "hd (fst (hd ?es)) = key"
      using ps hd_under [OF leaf_steps_nonempty, of key v] by simp
    have steps: "\<forall>e \<in> set ?es. fst e \<noteq> []"
      using False by (auto simp: under_def)
    show ?thesis
      by (rule place_steps_under_fresh [OF 7(3) 7(4) ne steps _ built])
         (simp only: hd nn if_False)
  qed
qed (simp_all add: under_def)

lemma tree_ok_finalized:
  "tree_ok d v \<Longrightarrow> maybeConvertToArray v = Inr v"
proof (induction d v rule: tree_ok.induct)
  case (7 d ps)
  have "convert_values qs = Inr qs" if "set qs \<subseteq> set ps" for qs
    using that
  proof (induction qs)
    case Nil
    show ?case by simp
  next
    case (Cons q qs)
    obtain k v where q: "q = (k, v)" by (cases q)
    with Cons(2) have "(k, v) \<in> set ps" by simp
    with 7(1) [of "(k, v)"] 7(2) have "maybeConvertToArray v = Inr v" by auto
    with Cons q show ?case by simp
  qed
  then have cv: "convert_values ps = Inr ps" by simp
  show ?case
  proof (cases ps)
    case Nil
    then show ?thesis by simp
  next
    case (Cons p qs)
    with 7(2) have "\<not> is_numeric (fst p)" by (auto simp: key_ok_def)
    with Cons cv show ?thesis by simp
  qed
qed simp_all

lemma show_nat_no_delimiter: "delimiter_ok d \<Longrightarrow> set (show_nat i) \<inter> set d = {}"
  using show_nat_digits [of i] by (auto simp: delimiter_ok_def list_all_iff)

lemma leaf_steps_disjoint:
  "tree_ok d v \<Longrightarrow> delimiter_ok d \<Longrightarrow> e \<in> set (leaf_steps v) \<Longrightarrow> s \<in> set (fst e) \<Longrightarrow>
   set s \<inter> set d = {}"
proof (induction v arbitrary: e rule: leaf_steps.induct)
  case (6 len ps)
  show ?case
  proof (cases "len = 0")
    case True
    with 6(4,5) show ?thesis by simp
  next
    case False
    from 6(2) have keys: "map fst ps = map show_nat [0..<len]"
      and kids: "\<forall>p \<in> set ps. tree_ok d (snd p)" by auto
    from False 6(4) obtain i e' where i: "i < len" and e': "e' \<in> set (leaf_steps (array_get ps i))"
      and e: "fst e = show_nat i # fst e'"
      by (auto simp: under_def)
    from keys i have "array_get ps i = snd (ps ! i)" by (rule dense_array_get)
    moreover from keys i have "ps ! i \<in> set ps" by (simp add: dense_length)
    ultimately have ok: "tree_ok d (array_get ps i)" using kids by simp
    from 6(5) e consider "s = show_nat i" | "s \<in> set (fst e')" by auto
    then show ?thesis
    proof cases
      case 1
      with 6(3) show ?thesis by (simp add: show_nat_no_delimiter)
    next
      case 2
      from 6(1) [OF False _ ok 6(3) e' 2] i show ?thesis by simp
    qed
  qed
next
  case (7 ps)
  show ?case
  proof (cases "ps = []")
    case True
    with 7(4,5) show ?thesis by simp
  next
    case False
    from 7(2) have kids: "\<forall>p \<in> set ps. key_ok d (fst p) \<and> tree_ok d (snd p)" by auto
    from False 7(4) obtain key v e' where kv: "(key, v) \<in> set ps" and e': "e' \<in> set (leaf_steps v)"
      and e: "fst e = key # fst e'"
      by (auto simp: under_def)
    from 7(5) e consider "s = key" | "s \<in> set (fst e')" by auto
    then show ?thesis
    proof cases
      case 1
      from kv kids have "key_ok d (fst (key, v))" by blast
      with 1 show ?thesis by (simp add: key_ok_def)
    next
      case 2
      from kv kids have "tree_ok d v" by auto
      from 7(1) [OF False kv refl this 7(3) e' 2] show ?thesis .
    qed
  qed
qed simp_all

lemma distinct_under_concat:
  "distinct (map fst kes) \<Longrightarrow> \<forall>(k, es) \<in> set kes. distinct (map fst es) \<Longrightarrow>
   distinct (map fst (concat (map (\<lambda>(k, es). under k es) kes)))"
proof (induction kes)
  case Nil
  show ?case by simp
next
  case (Cons ke kes)
  obtain k es where ke: "ke = (k, es)" by (cases ke)
  from Cons(3) ke have "distinct (map fst es)" by simp
  then have 1: "distinct (map fst (under k es))"
    by (simp add: under_def distinct_map comp_def case_prod_unfold inj_on_def)
  from Cons have 2: "distinct (map fst (concat (map (\<lambda>(k, es). under k es) kes)))" by simp
  have 3: "set (map fst (under k es)) \<inter> set (map fst (concat (map (\<lambda>(k, es). under k es) kes))) = {}"
  proof -
    have "hd ss = k" if "ss \<in> set (map fst (under k es))" for ss
      using that by (auto simp: under_def)
    moreover have "hd ss \<in> fst ` set kes"
      if "ss \<in> set (map fst (concat (map (\<lambda>(k, es). under k es) kes)))" for ss
      using that by (auto simp: under_def) force
    moreover from Cons(2) ke have "k \<notin> fst ` set kes" by simp
    ultimately show ?thesis by blast
  qed
  from 1 2 3 ke show ?case by simp
qed

lemma leaf_steps_distinct: "tree_ok d v \<Longrightarrow> distinct (map fst (leaf_steps v))"
proof (induction v rule: leaf_steps.induct)
  case (6 len ps)
  show ?case
  proof (cases "len = 0")
    case True
    then show ?thesis by simp
  next
    case False
    from 6(2) have keys: "map fst ps = map show_nat [0..<len]"
      and kids: "\<forall>p \<in> set ps. tree_ok d (snd p)" by auto
    let ?kes = "map (\<lambda>i. (show_nat i, leaf_steps (array_get ps i))) [0..<len]"
    have "distinct (map fst ?kes)"
      by (simp add: distinct_map comp_def inj_on_def) (metis show_nat_inj)
    moreover have "\<forall>(k, es) \<in> set ?kes. distinct (map fst es)"
    proof -
      have "distinct (map fst (leaf_steps (array_get ps i)))" if "i < len" for i
      proof -
        from keys that have "array_get ps i = snd (ps ! i)" by (rule dense_array_get)
        moreover from keys that have "ps ! i \<in> set ps" by (simp add: dense_length)
        ultimately have "tree_ok d (array_get ps i)" using kids by simp
        with 6(1) [OF False] that show ?thesis by simp
      qed
      then show ?thesis by auto
    qed
    ultimately have "distinct (map fst (concat (map (\<lambda>(k, es). under k es) ?kes)))"
      by (rule distinct_under_concat)
    moreover have "leaf_steps (JArr len ps) = concat (map (\<lambda>(k, es). under k es) ?kes)"
      using False by (simp add: comp_def)
    ultimately show ?thesis by simp
  qed
next
  case (7 ps)
  show ?case
  proof (cases "ps = []")
    case True
    then show ?thesis by simp
  next
    case False
    from 7(2) have dist: "distinct (map fst ps)"
      and kids: "\<forall>p \<in> set ps. tree_ok d (snd p)" by auto
    let ?kes = "map (\<lambda>(k, v). (k, leaf_steps v)) ps"
    have "map fst ?kes = map fst ps" by (induction ps) auto
    with dist have "distinct (map fst ?kes)" by (simp only:)
    moreover have "\<forall>(k, es) \<in> set ?kes. distinct (map fst es)"
      using 7(1) [OF False] kids by auto
    ultimately have "distinct (map fst (concat (map (\<lambda>(k, es). under k es) ?kes)))"
      by (rule distinct_under_concat)
    moreover have "leaf_steps (JObj ps) = concat (map (\<lambda>(k, es). under k es) ?kes)"
      using False by (simp add: comp_def case_prod_unfold)
    ultimately show ?thesis by simp
  qed
qed simp_all

lemma join_steps_has_delimiter:
  "ss \<noteq> [] \<Longrightarrow> tl ss \<noteq> [] \<Longrightarrow> set d \<subseteq> set (join_steps ss d)"
  by (cases ss; cases "tl ss") auto

lemma joined_path_not_index:
  assumes "delimiter_ok d" and "ss \<noteq> []" and "\<not> is_numeric (hd ss)"
  shows "array_index (join_steps ss d) = None"
proof (cases "tl ss")
  case Nil
  with assms(2) have "ss = [hd ss]" by (cases ss) auto
  then have "join_steps ss d = hd ss" by (metis join_steps.simps(2))
  with assms(3) show ?thesis by (simp add: not_numeric_array_index)
next
  case (Cons t ts)
  with assms(2) have "set d \<subseteq> set (join_steps ss d)" by (intro join_steps_has_delimiter) auto
  moreover from assms(1) obtain c where "c \<in> set d" "\<not> is_digit c"
    by (cases d) (auto simp: delimiter_ok_def)
  ultimately have "\<not> is_numeric (join_steps ss d)"
    by (auto simp: is_numeric_def list_all_iff)
  then show ?thesis by (rule not_numeric_array_index)
qed

lemma root_map_steps:
  assumes "e \<in> set (leaf_steps (JObj ps))" and "ps \<noteq> []"
  shows "fst e \<noteq> [] \<and> hd (fst e) \<in> fst ` set ps"
  using assms by (auto simp: under_def) force

lemma round_trip_map:
  assumes d: "delimiter_ok d"
    and ok: "tree_ok d (JObj ps)"
    and ne: "ps \<noteq> []"
    and keys: "\<forall>p \<in> set ps. fst p \<noteq> []"
    and proto: "''__proto__'' \<notin> fst ` set (preorder (JObj ps) d '''')"
  shows "unflatten (own_props (flatten (JObj ps) d '''' empty_record)) d = Inr (JObj ps)"
proof -
  define v where "v = JObj ps"
  define es where "es = leaf_steps v"
  define f where "f = (\<lambda>ss. join_steps ss d)"
  define flat where "flat = preorder v d ''''"
  from d have dne: "d \<noteq> []" by (simp add: delimiter_ok_def)
  from ok have kids: "\<forall>p \<in> set ps. key_ok d (fst p) \<and> tree_ok d (snd p)"
    and dist: "distinct (map fst ps)" by auto
  have steps: "fst e \<noteq> [] \<and> hd (fst e) \<noteq> [] \<and> \<not> is_numeric (hd (fst e))
      \<and> (\<forall>s \<in> set (fst e). set s \<inter> set d = {})" if "e \<in> set es" for e
  proof -
    from that have e: "e \<in> set (leaf_steps (JObj ps))" by (simp add: es_def v_def)
    from root_map_steps [OF e ne] obtain p where "fst e \<noteq> []" "p \<in> set ps" "hd (fst e) = fst p"
      by auto
    with keys kids have "fst e \<noteq> []" "hd (fst e) \<noteq> []" "\<not> is_numeric (hd (fst e))"
      by (auto simp: key_ok_def)
    moreover have "\<forall>s \<in> set (fst e). set s \<inter> set d = {}"
      using leaf_steps_disjoint [OF ok d e] by blast
    ultimately show ?thesis by blast
  qed
  have split: "splitKey (f (fst e)) d = fst e" if "e \<in> set es" for e
    unfolding f_def using steps [OF that] dne by (intro splitKey_join) auto
  have path: "path_of d [] (fst e) = f (fst e)" if "e \<in> set es" for e
  proof -
    from steps [OF that] obtain k ss where "fst e = k # ss" "k \<noteq> []"
      by (cases "fst e") auto
    then show ?thesis by (simp add: path_of_root f_def)
  qed
  have pre: "flat = map (\<lambda>e. (f (fst e), snd e)) es"
  proof -
    have "flat = map (\<lambda>(ss, x). (path_of d [] ss, x)) es"
      unfolding flat_def es_def by (rule preorder_leaf_steps)
    also have "\<dots> = map (\<lambda>e. (f (fst e), snd e)) es"
      by (rule map_cong) (use path in \<open>auto simp: case_prod_unfold\<close>)
    finally show ?thesis .
  qed
  have paths: "map fst flat = map f (map fst es)"
    by (simp add: pre comp_def)
  have "inj_on f (set (map fst es))"
  proof (rule inj_onI)
    fix a b assume "a \<in> set (map fst es)" "b \<in> set (map fst es)" "f a = f b"
    then show "a = b" using split by (metis (no_types, lifting) imageE list.set_map)
  qed
  moreover have "distinct (map fst es)"
    unfolding es_def v_def by (rule leaf_steps_distinct [OF ok])
  ultimately have "distinct (map f (map fst es))"
    by (metis distinct_map)
  then have "distinct (map fst flat)"
    by (simp only: paths)
  moreover have "\<forall>k \<in> fst ` set flat. array_index k = None \<and> k \<noteq> ''__proto__''"
  proof
    fix k assume k: "k \<in> fst ` set flat"
    then have "k \<in> set (map f (map fst es))" by (simp only: paths [symmetric]) simp
    then obtain e where "e \<in> set es" "k = f (fst e)" by auto
    with steps [of e] d have "array_index k = None" by (simp add: joined_path_not_index f_def)
    moreover have "''__proto__'' \<notin> fst ` set flat" unfolding flat_def v_def by (rule proto)
    with k have "k \<noteq> ''__proto__''" by blast
    ultimately show "array_index k = None \<and> k \<noteq> ''__proto__''" by simp
  qed
  ultimately have "fold store flat empty_record = RecordObject ([] @ flat) True"
    by (intro fold_store_append) auto
  then have flatten: "flatten v d '''' empty_record = RecordObject flat True"
    by (simp add: flatten_fold_preorder flat_def)
  have "place_entries (JObj []) (map (\<lambda>(ss, x). (f ss, x)) es) d = place_steps (JObj []) es"
    by (rule place_entries_steps) (use split in auto)
  moreover have "map (\<lambda>(ss, x). (f ss, x)) es = flat"
    by (simp add: pre case_prod_unfold)
  moreover have "place_steps (JObj []) es = Inr v"
  proof -
    have "place_steps (JObj []) (concat (map (\<lambda>(key, v). under key (leaf_steps v)) ps))
        = Inr (JObj ([] @ ps))"
    proof (rule map_children [where ps = ps and d = d])
      fix key v cur k cur2
      assume "(key, v) \<in> set ps" "js_get cur k = Inr JUndefined" "js_set cur k v = Inr cur2"
      with kids show "place_steps cur (under k (leaf_steps v)) = Inr cur2"
        by (intro place_child [where d = d]) auto
    qed (use dist kids in auto)
    with ne show ?thesis by (simp add: es_def v_def)
  qed
  ultimately have "place_entries (JObj []) flat d = Inr v"
    by simp
  moreover have "maybeConvertToArray v = Inr v"
    unfolding v_def by (rule tree_ok_finalized [OF ok])
  ultimately have "unflatten (own_props (flatten v d [] empty_record)) d = Inr v"
    by (simp add: unflatten_def flatten)
  then show ?thesis unfolding v_def .
qed

lemma insert_index_between:
  "\<forall>p \<in> set A. \<exists>j < i. array_index (fst p) = Some j \<Longrightarrow>
   B = [] \<or> array_index (fst (hd B)) = None \<Longrightarrow>
   insert_index i k x (A @ B) = A @ (k, x) # B"
proof (induction A)
  case Nil
  then show ?case by (cases B) auto
next
  case (Cons a A)
  then show ?case by (cases a) auto
qed

lemma fold_store_index_first:
  "distinct (map fst (A @ B @ es)) \<Longrightarrow> ''__proto__'' \<notin> fst ` set es \<Longrightarrow>
   \<forall>p \<in> set A. index_key p \<Longrightarrow> \<forall>p \<in> set B. \<not> index_key p \<Longrightarrow>
   sorted_wrt (<) (map key_index (A @ filter index_key es)) \<Longrightarrow>
   fold store es (RecordObject (A @ B) reached)
     = RecordObject ((A @ filter index_key es) @ (B @ filter (\<lambda>p. \<not> index_key p) es)) reached"
proof (induction es arbitrary: A B)
  case Nil
  show ?case by simp
next
  case (Cons e es)
  obtain k x where e: "e = (k, x)" by (cases e)
  from Cons(2) e have notin: "k \<notin> fst ` set (A @ B)" by auto
  from Cons(3) e have np: "k \<noteq> ''__proto__''" by auto
  show ?case
  proof (cases "array_index k")
    case None
    with notin np e have "store e (RecordObject (A @ B) reached) = RecordObject (A @ (B @ [e])) reached"
      by (simp add: store_def record_set_def define_prop_def)
    moreover from None e have ne: "\<not> index_key e" by (simp add: index_key_def)
    moreover from Cons(2,3,4,5,6) ne e
    have "fold store es (RecordObject (A @ (B @ [e])) reached)
        = RecordObject ((A @ filter index_key es) @ ((B @ [e]) @ filter (\<lambda>p. \<not> index_key p) es)) reached"
      by (intro Cons(1)) auto
    ultimately show ?thesis by simp
  next
    case (Some i)
    with e have ie: "index_key e" by (simp add: index_key_def)
    have small: "\<forall>p \<in> set A. \<exists>j < i. array_index (fst p) = Some j"
    proof
      fix p assume p: "p \<in> set A"
      with Cons(4) obtain j where j: "array_index (fst p) = Some j" by (auto simp: index_key_def)
      from Cons(6) ie p have "key_index p < key_index e"
        by (auto simp: sorted_wrt_append)
      with j Some e have "j < i" by (simp add: key_index_def)
      with j show "\<exists>j < i. array_index (fst p) = Some j" by blast
    qed
    have "B = [] \<or> array_index (fst (hd B)) = None"
      using Cons(5) by (cases B) (auto simp: index_key_def)
    with small have "insert_index i k x (A @ B) = A @ (k, x) # B"
      by (rule insert_index_between)
    with notin np Some e have "store e (RecordObject (A @ B) reached) = RecordObject ((A @ [e]) @ B) reached"
      by (simp add: store_def record_set_def define_prop_def)
    moreover from Cons(2,3,4,5,6) ie e
    have "fold store es (RecordObject ((A @ [e]) @ B) reached)
        = RecordObject (((A @ [e]) @ filter index_key es) @ (B @ filter (\<lambda>p. \<not> index_key p) es)) reached"
      by (intro Cons(1)) auto
    ultimately show ?thesis using ie by simp
  qed
qed

lemma insert_into_filtered:
  "sorted_wrt (<) (map key_index ps) \<Longrightarrow> \<forall>p \<in> set ps. index_key p \<Longrightarrow>
   distinct (map fst ps) \<Longrightarrow> (k, x) \<in> set ps \<Longrightarrow> k \<notin> K \<Longrightarrow>
   insert_index (key_index (k, x)) k x (filter (\<lambda>p. fst p \<in> K) ps)
     = filter (\<lambda>p. fst p \<in> insert k K) ps"
proof (induction ps)
  case Nil
  then show ?case by simp
next
  case (Cons p ps)
  obtain k' x' where p: "p = (k', x')" by (cases p)
  show ?case
  proof (cases "k' = k")
    case True
    with Cons(4,5) p have px: "p = (k, x)" by (auto simp: image_iff)
    with Cons(4) have notin: "k \<notin> fst ` set ps" by simp
    then have same: "filter (\<lambda>p. fst p \<in> insert k K) ps = filter (\<lambda>p. fst p \<in> K) ps"
      by (intro filter_cong) auto
    have "insert_index (key_index (k, x)) k x (filter (\<lambda>p. fst p \<in> K) ps)
        = (k, x) # filter (\<lambda>p. fst p \<in> K) ps"
    proof (cases "filter (\<lambda>p. fst p \<in> K) ps")
      case Nil
      then show ?thesis by simp
    next
      case (Cons q qs)
      then have "q \<in> set (filter (\<lambda>p. fst p \<in> K) ps)" by simp
      then have q: "q \<in> set ps" by simp
      with Cons.prems(1) px have "key_index (k, x) < key_index q" by auto
      moreover from q Cons.prems(2) obtain j where "array_index (fst q) = Some j"
        by (auto simp: index_key_def)
      ultimately show ?thesis using Cons by (cases q) (auto simp: key_index_def)
    qed
    with px Cons(6) same show ?thesis by simp
  next
    case False
    with Cons(5) p have mem: "(k, x) \<in> set ps" by auto
    with Cons(2) p have less: "key_index (k', x') < key_index (k, x)" by auto
    from Cons(3) p obtain j where j: "array_index k' = Some j" by (auto simp: index_key_def)
    from Cons(2,3,4) mem Cons(6)
    have IH: "insert_index (key_index (k, x)) k x (filter (\<lambda>p. fst p \<in> K) ps)
       = filter (\<lambda>p. fst p \<in> insert k K) ps"
      by (intro Cons(1)) auto
    from less j have "j < key_index (k, x)" by (simp add: key_index_def)
    with IH p j False show ?thesis by simp
  qed
qed

lemma dense_sorted:
  assumes "map fst ps = map show_nat [0..<len]" and "len < 4294967295"
  shows "sorted_wrt (<) (map key_index ps) \<and> (\<forall>p \<in> set ps. index_key p)"
proof -
  from assms(1) have l: "length ps = len" by (rule dense_length)
  have "map key_index ps = [0..<len]"
  proof (rule nth_equalityI)
    show "length (map key_index ps) = length [0..<len]" by (simp add: l)
    fix i assume "i < length (map key_index ps)"
    then have i: "i < len" by (simp add: l)
    with dense_nth [OF assms(1) i] assms(2) show "map key_index ps ! i = [0..<len] ! i"
      by (simp add: l key_index_def array_index_show_nat)
  qed
  then have 1: "sorted_wrt (<) (map key_index ps)" by (simp add: sorted_wrt_upt)
  have 2: "\<forall>p \<in> set ps. index_key p"
  proof
    fix p assume "p \<in> set ps"
    then have "fst p \<in> set (map fst ps)" by simp
    then obtain i where "i < len" "fst p = show_nat i" by (auto simp: assms(1))
    with assms(2) show "index_key p" by (simp add: index_key_def array_index_show_nat)
  qed
  from 1 2 show ?thesis by simp
qed

lemma object_inherited_subset: "set object_inherited \<subseteq> set array_inherited"
  unfolding array_inherited_def by (simp only: set_append) blast

lemma place_elements_any_order:
  assumes keys: "map fst ps = map show_nat [0..<len]" and len: "len < 4294967295"
    and kids: "\<forall>p \<in> set ps. tree_ok d (snd p)"
  shows "distinct is \<Longrightarrow> set is \<subseteq> {0..<len} \<Longrightarrow> K \<inter> show_nat ` set is = {} \<Longrightarrow>
     place_steps (JObj (filter (\<lambda>p. fst p \<in> K) ps))
       (concat (map (\<lambda>i. under (show_nat i) (leaf_steps (array_get ps i))) is))
     = Inr (JObj (filter (\<lambda>p. fst p \<in> K \<union> show_nat ` set is) ps))"
proof (induction "is" arbitrary: K)
  case Nil
  show ?case by simp
next
  case (Cons i "is")
  let ?cur = "JObj (filter (\<lambda>p. fst p \<in> K) ps)"
  let ?x = "array_get ps i"
  let ?k = "show_nat i"
  from Cons(3) have i: "i < len" by simp
  from Cons(4) have kK: "?k \<notin> K" by auto
  from keys i have x: "?x = snd (ps ! i)" by (rule dense_array_get)
  from keys i have mem0: "ps ! i \<in> set ps" by (simp add: dense_length)
  with x dense_nth [OF keys i] have mem: "(?k, ?x) \<in> set ps" by (metis prod.collapse)
  from mem0 x kids have ok: "tree_ok d ?x" by simp
  from kK have "?k \<notin> fst ` set (filter (\<lambda>p. fst p \<in> K) ps)" by auto
  then have none: "map_of (filter (\<lambda>p. fst p \<in> K) ps) ?k = None"
    by (simp add: map_of_eq_None_iff)
  have ni: "?k \<notin> set object_inherited"
    using numeric_not_inherited [OF is_numeric_show_nat, of i] object_inherited_subset by blast
  with none have get: "js_get ?cur ?k = Inr JUndefined" by simp
  from ni have np: "?k \<noteq> ''__proto__''" by (auto simp: object_inherited_def)
  from i len have ai: "array_index ?k = Some i" by (simp add: array_index_show_nat)
  then have ki: "key_index (?k, ?x) = i" by (simp add: key_index_def)
  from dense_sorted [OF keys len] dense_distinct [OF keys] mem kK
  have "insert_index (key_index (?k, ?x)) ?k ?x (filter (\<lambda>p. fst p \<in> K) ps)
      = filter (\<lambda>p. fst p \<in> insert ?k K) ps"
    by (intro insert_into_filtered) auto
  with kK ai ki np have set: "js_set ?cur ?k ?x = Inr (JObj (filter (\<lambda>p. fst p \<in> insert ?k K) ps))"
    by (auto simp: define_prop_def)
  from place_child [OF ok get set]
  have one: "place_steps ?cur (under ?k (leaf_steps ?x))
      = Inr (JObj (filter (\<lambda>p. fst p \<in> insert ?k K) ps))" .
  from Cons(2,3,4) have "insert ?k K \<inter> show_nat ` set is = {}"
    by (auto dest: show_nat_inj)
  with Cons(2,3) have "place_steps (JObj (filter (\<lambda>p. fst p \<in> insert ?k K) ps))
       (concat (map (\<lambda>i. under (show_nat i) (leaf_steps (array_get ps i))) is))
     = Inr (JObj (filter (\<lambda>p. fst p \<in> insert ?k K \<union> show_nat ` set is) ps))"
    by (intro Cons(1)) auto
  moreover have "insert ?k K \<union> show_nat ` set is = K \<union> show_nat ` set (i # is)" by auto
  ultimately show ?case using one by (simp add: place_steps_append)
qed

lemma fill_dense:
  assumes keys: "map fst ps = map show_nat [0..<len]" and len: "len < 4294967295"
    and kids: "\<forall>p \<in> set ps. tree_ok d (snd p)"
  shows "n \<le> len \<Longrightarrow>
     fill_array (JArr (len - n) (take (len - n) ps)) (drop (len - n) ps) = Inr (JArr len ps)"
proof (induction n)
  case 0
  from keys have "length ps = len" by (rule dense_length)
  then show ?case by simp
next
  case (Suc n)
  define i where "i = len - Suc n"
  with Suc(2) have i: "i < len" "len - n = Suc i" by auto
  let ?x = "array_get ps i"
  from keys have l: "length ps = len" by (rule dense_length)
  from keys i have nth: "ps ! i = (show_nat i, ?x)"
    by (metis dense_nth dense_array_get prod.collapse)
  from i l have "ps ! i \<in> set ps" by simp
  with nth kids have "tree_ok d ?x" by (metis snd_conv)
  then have conv: "maybeConvertToArray ?x = Inr ?x" by (rule tree_ok_finalized)
  from i len have "array_put (JArr i (take i ps)) (parseInt (show_nat i)) ?x
      = Inr (JArr (Suc i) (take (Suc i) ps))"
    using dense_step(2) [OF keys len i(1)] by (simp add: array_put_def parseInt_show_nat)
  moreover from i l have "drop i ps = ps ! i # drop (Suc i) ps"
    by (simp add: Cons_nth_drop_Suc)
  ultimately show ?case using Suc i conv nth by (simp add: i_def [symmetric])
qed

lemma leaf_steps_leaf: "leaf_value x \<Longrightarrow> leaf_steps x = [([], x)]"
  by (cases x) auto

lemma leaf_steps_container:
  "tree_ok d x \<Longrightarrow> \<not> leaf_value x \<Longrightarrow> e \<in> set (leaf_steps x) \<Longrightarrow> fst e \<noteq> []"
  by (cases x) (auto simp: under_def split: if_splits)

lemma filter_concat_groups:
  "\<forall>x \<in> set xs. filter P (g x) = (if Q x then g x else []) \<Longrightarrow>
   filter P (concat (map g xs)) = concat (map g (filter Q xs))"
  by (induction xs) auto

lemma concat_singletons: "\<forall>x \<in> set xs. g x = [k x] \<Longrightarrow> concat (map g xs) = map k xs"
  by (induction xs) auto

lemma root_sequence_steps:
  assumes "e \<in> set (leaf_steps (JArr len ps))" and "len \<noteq> 0"
  shows "\<exists>i < len. fst e \<noteq> [] \<and> hd (fst e) = show_nat i"
  using assms by (auto simp: under_def)

lemma round_trip_sequence:
  assumes d: "delimiter_ok d"
    and ok: "tree_ok d (JArr len ps)"
    and ne: "len \<noteq> 0"
    and proto: "''__proto__'' \<notin> fst ` set (preorder (JArr len ps) d '''')"
  shows "unflatten (own_props (flatten (JArr len ps) d '''' empty_record)) d = Inr (JArr len ps)"
proof -
  define v where "v = JArr len ps"
  define g where "g = (\<lambda>i. under (show_nat i) (leaf_steps (array_get ps i)))"
  define es where "es = leaf_steps v"
  define f where "f = (\<lambda>ss. join_steps ss d)"
  define h where "h = (\<lambda>e :: string list \<times> 'a json. (f (fst e), snd e))"
  define flat where "flat = preorder v d ''''"
  define L where "L = (\<lambda>i. leaf_value (array_get ps i))"
  define I1 where "I1 = filter L [0..<len]"
  define I2 where "I2 = filter (\<lambda>i. \<not> L i) [0..<len]"
  from d have dne: "d \<noteq> []" by (simp add: delimiter_ok_def)
  from ok have keys: "map fst ps = map show_nat [0..<len]" and len: "len < 4294967295"
    and kids: "\<forall>p \<in> set ps. tree_ok d (snd p)" by auto
  have es: "es = concat (map g [0..<len])"
    using ne by (simp add: es_def v_def g_def)
  have kid: "tree_ok d (array_get ps i)" if "i < len" for i
  proof -
    from keys that have "array_get ps i = snd (ps ! i)" by (rule dense_array_get)
    moreover from keys that have "ps ! i \<in> set ps" by (simp add: dense_length)
    ultimately show ?thesis using kids by simp
  qed
  have steps: "fst e \<noteq> [] \<and> hd (fst e) \<noteq> [] \<and> (\<forall>s \<in> set (fst e). set s \<inter> set d = {})"
    if "e \<in> set es" for e
  proof -
    from that have e: "e \<in> set (leaf_steps (JArr len ps))" by (simp add: es_def v_def)
    from root_sequence_steps [OF e ne] obtain i where "fst e \<noteq> []" "hd (fst e) = show_nat i"
      by auto
    moreover have "show_nat i \<noteq> []" using show_nat_digits [of i] by simp
    moreover have "\<forall>s \<in> set (fst e). set s \<inter> set d = {}"
      using leaf_steps_disjoint [OF ok d e] by blast
    ultimately show ?thesis by simp
  qed
  have split: "splitKey (f (fst e)) d = fst e" if "e \<in> set es" for e
    unfolding f_def using steps [OF that] dne by (intro splitKey_join) auto
  have path: "path_of d [] (fst e) = f (fst e)" if "e \<in> set es" for e
  proof -
    from steps [OF that] obtain k ss where "fst e = k # ss" "k \<noteq> []"
      by (cases "fst e") auto
    then show ?thesis by (simp add: path_of_root f_def)
  qed
  have pre: "flat = map h es"
  proof -
    have "flat = map (\<lambda>(ss, x). (path_of d [] ss, x)) es"
      unfolding flat_def es_def by (rule preorder_leaf_steps)
    also have "\<dots> = map h es"
      by (rule map_cong) (use path in \<open>auto simp: case_prod_unfold h_def\<close>)
    finally show ?thesis .
  qed
  have paths: "map fst flat = map f (map fst es)"
    by (simp add: pre comp_def h_def)
  have "inj_on f (set (map fst es))"
  proof (rule inj_onI)
    fix a b assume "a \<in> set (map fst es)" "b \<in> set (map fst es)" "f a = f b"
    then show "a = b" using split by (metis (no_types, lifting) imageE list.set_map)
  qed
  moreover have "distinct (map fst es)"
    unfolding es_def v_def by (rule leaf_steps_distinct [OF ok])
  ultimately have "distinct (map f (map fst es))"
    by (metis distinct_map)
  then have dist: "distinct (map fst flat)"
    by (simp only: paths)
  have np: "''__proto__'' \<notin> fst ` set flat" unfolding flat_def v_def by (rule proto)
  \<comment> \<open>the groups of entries, one for each element\<close>
  have leaf_group: "g i = [([show_nat i], array_get ps i)]" if "L i" for i
    using that by (simp add: g_def L_def leaf_steps_leaf under_def)
  have deep_group: "tl (fst e) \<noteq> []" if "i < len" "\<not> L i" "e \<in> set (g i)" for i e
  proof -
    from that(3) obtain e' where e': "e' \<in> set (leaf_steps (array_get ps i))"
      and e: "fst e = show_nat i # fst e'" by (auto simp: g_def under_def)
    from leaf_steps_container [OF kid [OF that(1)] _ e'] that(2) have "fst e' \<noteq> []"
      by (simp add: L_def)
    with e show ?thesis by simp
  qed
  have single: "filter single_step (g i) = (if L i then g i else [])" if "i < len" for i
  proof (cases "L i")
    case True
    then show ?thesis by (simp add: leaf_group single_step_def)
  next
    case False
    with deep_group [OF that] have "\<forall>e \<in> set (g i). \<not> single_step e"
      by (auto simp: single_step_def)
    with False show ?thesis by simp
  qed
  have deep: "filter (\<lambda>e. \<not> single_step e) (g i) = (if \<not> L i then g i else [])" if "i < len" for i
  proof (cases "L i")
    case True
    then show ?thesis by (simp add: leaf_group single_step_def)
  next
    case False
    with deep_group [OF that] have "\<forall>e \<in> set (g i). \<not> single_step e"
      by (auto simp: single_step_def)
    with False show ?thesis by simp
  qed
  have es1: "filter single_step es = concat (map g I1)"
    unfolding es I1_def by (rule filter_concat_groups) (use single in auto)
  have es2: "filter (\<lambda>e. \<not> single_step e) es = concat (map g I2)"
    unfolding es I2_def by (rule filter_concat_groups) (use deep in auto)
  \<comment> \<open>which paths are array indices\<close>
  have idx: "index_key (h e) = single_step e" if "e \<in> set es" for e
  proof (cases "tl (fst e)")
    case Nil
    from that obtain i where i: "i < len" "e \<in> set (g i)" by (auto simp: es)
    then obtain e' where "fst e = show_nat i # fst e'" by (auto simp: g_def under_def)
    with Nil have "fst e = [show_nat i]" by simp
    with i len Nil show ?thesis
      by (simp add: h_def f_def index_key_def single_step_def array_index_show_nat)
  next
    case (Cons t ts)
    with steps [OF that] have "set d \<subseteq> set (f (fst e))"
      unfolding f_def by (intro join_steps_has_delimiter) auto
    moreover from d obtain c where "c \<in> set d" "\<not> is_digit c"
      by (cases d) (auto simp: delimiter_ok_def)
    ultimately have "\<not> is_numeric (f (fst e))"
      by (auto simp: is_numeric_def list_all_iff)
    then have "array_index (f (fst e)) = None" by (rule not_numeric_array_index)
    with Cons show ?thesis by (simp add: h_def index_key_def single_step_def)
  qed
  have f1: "filter index_key flat = map h (concat (map g I1))"
  proof -
    have "filter index_key (map h es) = map h (filter (\<lambda>e. index_key (h e)) es)"
      by (simp add: filter_map comp_def)
    also have "filter (\<lambda>e. index_key (h e)) es = filter single_step es"
      by (rule filter_cong) (use idx in auto)
    finally show ?thesis by (simp add: pre es1)
  qed
  have f2: "filter (\<lambda>p. \<not> index_key p) flat = map h (concat (map g I2))"
  proof -
    have "filter (\<lambda>p. \<not> index_key p) (map h es) = map h (filter (\<lambda>e. \<not> index_key (h e)) es)"
      by (simp add: filter_map comp_def)
    also have "filter (\<lambda>e. \<not> index_key (h e)) es = filter (\<lambda>e. \<not> single_step e) es"
      by (rule filter_cong) (use idx in auto)
    finally show ?thesis by (simp add: pre es2)
  qed
  have "concat (map g I1) = map (\<lambda>i. ([show_nat i], array_get ps i)) I1"
    by (rule concat_singletons) (use leaf_group in \<open>auto simp: I1_def\<close>)
  then have "map key_index (filter index_key flat)
      = map (\<lambda>i. key_index (show_nat i, array_get ps i)) I1"
    by (simp add: f1 comp_def h_def f_def)
  also have "\<dots> = map (\<lambda>i. i) I1"
    by (rule map_cong) (use len in \<open>auto simp: I1_def key_index_def array_index_show_nat\<close>)
  finally have "map key_index (filter index_key flat) = I1" by simp
  then have sorted: "sorted_wrt (<) (map key_index ([] @ filter index_key flat))"
    by (simp add: I1_def sorted_wrt_filter)
  have "fold store flat (RecordObject ([] @ []) True)
      = RecordObject (([] @ filter index_key flat) @ ([] @ filter (\<lambda>p. \<not> index_key p) flat)) True"
    by (rule fold_store_index_first) (use dist np sorted in auto)
  then have flatten: "flatten v d '''' empty_record
      = RecordObject (map h (concat (map g (I1 @ I2)))) True"
    by (simp add: flatten_fold_preorder flat_def [symmetric] f1 f2)
  \<comment> \<open>unflatten\<close>
  define ES where "ES = concat (map g (I1 @ I2))"
  have members: "set ES \<subseteq> set es"
    by (auto simp: ES_def es I1_def I2_def)
  have hh: "(\<lambda>(ss, x). (f ss, x)) = h"
    by (auto simp: h_def)
  have "place_entries (JObj []) (map (\<lambda>(ss, x). (f ss, x)) ES) d = place_steps (JObj []) ES"
    by (rule place_entries_steps) (use split members in auto)
  then have "place_entries (JObj []) (map h ES) d = place_steps (JObj []) ES"
    by (simp only: hh)
  moreover have "place_steps (JObj []) ES = Inr (JObj ps)"
  proof -
    have "place_steps (JObj (filter (\<lambda>p. fst p \<in> {}) ps))
       (concat (map (\<lambda>i. under (show_nat i) (leaf_steps (array_get ps i))) (I1 @ I2)))
     = Inr (JObj (filter (\<lambda>p. fst p \<in> {} \<union> show_nat ` set (I1 @ I2)) ps))"
      by (rule place_elements_any_order [OF keys len kids]) (auto simp: I1_def I2_def)
    moreover have "filter (\<lambda>p. fst p \<in> {} \<union> show_nat ` set (I1 @ I2)) ps = ps"
    proof -
      have "fst p \<in> show_nat ` set (I1 @ I2)" if "p \<in> set ps" for p
      proof -
        from that have "fst p \<in> set (map fst ps)" by simp
        then obtain i where "i < len" "fst p = show_nat i" by (auto simp: keys)
        then show ?thesis by (auto simp: I1_def I2_def)
      qed
      then show ?thesis by (simp add: filter_id_conv)
    qed
    ultimately show ?thesis by (simp add: g_def ES_def)
  qed
  moreover have "own_props (flatten v d [] empty_record) = map h ES"
    by (simp only: flatten ES_def record_object.sel)
  ultimately have placed:
    "place_entries (JObj []) (own_props (flatten v d [] empty_record)) d = Inr (JObj ps)"
    by simp
  have "ps \<noteq> []" using keys ne by auto
  moreover have "list_all is_numeric (map fst ps)"
    by (simp add: keys list_all_iff is_numeric_show_nat)
  moreover have "fill_array (JArr 0 []) ps = Inr (JArr len ps)"
    using fill_dense [OF keys len kids, of len] by simp
  ultimately have "maybeConvertToArray (JObj ps) = Inr v"
    by (simp add: v_def)
  with placed have "unflatten (own_props (flatten v d '''' empty_record)) d = Inr v"
    by (simp add: unflatten_def)
  then show ?thesis unfolding v_def .
qed

text \<open>
  C1, as the claim states it: every tree without delimiter-containing keys comes back
  from unflatten after flatten, bare root scalars included, for any non-empty delimiter
  that no key contains. It fails for a root scalar, which comes back wrapped in a map;
  for an empty root map likewise; for a map with an all-digit key, which comes back as a
  sequence; for a root key that is the empty string, which is lost; for the delimiter
  \<^verbatim>\<open>aa\<close> next to the key \<^verbatim>\<open>a\<close>, where the path is cut in the wrong place; for
  the delimiter \<^verbatim>\<open>1\<close> next to the indices of a sequence; and where the path of a leaf
  spells \<^verbatim>\<open>__proto__\<close>: the assignment reaches the setter, which ignores a number.
\<close>

theorem round_trip_failures:
  "unflatten (own_props (flatten (JNum (5::int)) ''.'' '''' empty_record)) ''.''
       = Inr (JObj [('''', JNum 5)])
   \<and> unflatten (own_props (flatten (JObj [] :: int json) ''.'' '''' empty_record)) ''.''
       = Inr (JObj [('''', JObj [])])
   \<and> unflatten (own_props (flatten (JObj [(''0'', JNum (1::int))]) ''.'' '''' empty_record)) ''.''
       = Inr (JArr 1 [(''0'', JNum 1)])
   \<and> unflatten (own_props (flatten (JObj [('''', JObj [(''a'', JNum (1::int))])])
                    ''.'' '''' empty_record)) ''.''
       = Inr (JObj [(''a'', JNum 1)])
   \<and> unflatten (own_props (flatten (JObj [(''a'', JObj [(''b'', JNum (1::int))])])
                    ''aa'' '''' empty_record)) ''aa''
       = Inr (JObj [('''', JObj [(''ab'', JNum 1)])])
   \<and> unflatten (own_props (flatten (JObj [(''x'', JArr 2 [(''0'', JNum (7::int)), (''1'', JNum 8)])])
                    ''1'' '''' empty_record)) ''1''
       = Inr (JObj [(''x'', JArr 1 [(''0'', JNum 7), ('''', JObj [('''', JNum 8)])])])
   \<and> unflatten (own_props (flatten (JObj [(''__'', JObj [(''roto__'', JNum (1::int))])])
                    ''p'' '''' empty_record)) ''p''
       = Inr (JObj [])"
  by (simp add: eval_defs)

text \<open>
  C1, amended. Let the delimiter be non-empty and free of decimal digits, and let the
  tree be a non-empty map or a non-empty sequence at the root, built from scalars,
  sequences and maps, in which no map key is an all-digit string, is the name of a
  member of \<^verbatim>\<open>Object.prototype\<close> or shares a character with the delimiter, no key of
  the root is the empty string and no leaf has the path \<^verbatim>\<open>__proto__\<close>. Then
  unflatten after flatten returns the tree.
\<close>

theorem round_trip:
  assumes "delimiter_ok d"
    and "tree_ok d v"
    and "\<not> leaf_value v"
    and "\<forall>k \<in> set (own_keys v). k \<noteq> []"
    and "''__proto__'' \<notin> fst ` set (preorder v d '''')"
  shows "unflatten (own_props (flatten v d '''' empty_record)) d = Inr v"
proof (cases v)
  case (JArr len ps)
  with assms(2,3) have "len \<noteq> 0" by (cases "len = 0") auto
  with assms(1) assms(2,5) [unfolded JArr] show ?thesis
    unfolding JArr by (intro round_trip_sequence)
next
  case (JObj ps)
  with assms(3) have "ps \<noteq> []" by simp
  moreover from assms(4) JObj have "\<forall>p \<in> set ps. fst p \<noteq> []" by simp
  ultimately show ?thesis using assms(1) assms(2,5) [unfolded JObj]
    unfolding JObj by (intro round_trip_map)
qed (use assms in auto)

theorem round_trip_witness:
  "delimiter_ok ''.''
   \<and> tree_ok ''.'' (JObj [(''user'', JObj [(''name'', JStr ''J''),
                                            (''tags'', JArr 2 [(''0'', JNum (1::int)), (''1'', JNum 2)])])])
   \<and> unflatten (own_props (flatten (JObj [(''user'', JObj [(''name'', JStr ''J''),
                                            (''tags'', JArr 2 [(''0'', JNum (1::int)), (''1'', JNum 2)])])])
                  ''.'' '''' empty_record)) ''.''
       = Inr (JObj [(''user'', JObj [(''name'', JStr ''J''),
                                     (''tags'', JArr 2 [(''0'', JNum 1), (''1'', JNum 2)])])])
   \<and> tree_ok ''/'' (JArr 2 [(''0'', JObj [(''a'', JNum (1::int))]), (''1'', JNum 5)])
   \<and> unflatten (own_props (flatten (JArr 2 [(''0'', JObj [(''a'', JNum (1::int))]), (''1'', JNum 5)])
                  ''/'' '''' empty_record)) ''/''
       = Inr (JArr 2 [(''0'', JObj [(''a'', JNum 1)]), (''1'', JNum 5)])"
  using round_trip
          [of "''.''" "JObj [(''user'', JObj [(''name'', JStr ''J''),
                                     (''tags'', JArr 2 [(''0'', JNum (1::int)), (''1'', JNum 2)])])]"]
        round_trip
          [of "''/''" "JArr 2 [(''0'', JObj [(''a'', JNum (1::int))]), (''1'', JNum 5)]"]
  by (simp add: eval_defs delimiter_ok_def key_ok_def)

end
